theory Spec2Isabelle
  imports Complex_Main "HOL-Library.Product_Lexorder" "HOL-Library.Multiset"
begin

section \<open>Python values, errors and containers\<close>

text \<open>
  The sprite extractor is a Python program. Its integers are unbounded (\<open>int\<close>), its
  lists are HOL lists, and every exception the code can raise is a value of \<open>py_error\<close>:
  a computation that may raise returns \<open>py_error + 'a\<close>, with \<open>Inl\<close> for the exception.
\<close>

text \<open>
  \<open>SystemExit\<close> carries the exit status of the process: \<open>raise SystemExit("message")\<close> and
  every other exception that reaches the top level end the process with status 1, the
  argument parser exits with status 2.
\<close>

datatype py_error = IndexError | ZeroDivisionError | ValueError | OSError | SystemExit int

definition bind_err :: "py_error + 'a \<Rightarrow> ('a \<Rightarrow> py_error + 'b) \<Rightarrow> py_error + 'b" where
  "bind_err m f = (case m of Inl e \<Rightarrow> Inl e | Inr v \<Rightarrow> f v)"

text \<open>A \<open>for\<close> loop over a list whose body may raise: the first exception ends the loop.\<close>

fun fold_err :: "('a \<Rightarrow> 's \<Rightarrow> py_error + 's) \<Rightarrow> 'a list \<Rightarrow> 's \<Rightarrow> py_error + 's" where
  "fold_err f [] s = Inr s"
| "fold_err f (x # xs) s = (case f x s of Inl e \<Rightarrow> Inl e | Inr s' \<Rightarrow> fold_err f xs s')"

text \<open>A list comprehension whose element expression may raise.\<close>

fun map_err :: "('a \<Rightarrow> py_error + 'b) \<Rightarrow> 'a list \<Rightarrow> py_error + 'b list" where
  "map_err f [] = Inr []"
| "map_err f (x # xs) =
     (case f x of Inl e \<Rightarrow> Inl e
      | Inr y \<Rightarrow> (case map_err f xs of Inl e \<Rightarrow> Inl e | Inr ys \<Rightarrow> Inr (y # ys)))"

text \<open>
  \<open>any(g(p) for p in ps)\<close>: the generator is consumed from the left and \<open>any\<close> stops at
  the first true element, so elements after it are never evaluated.
\<close>

fun any_err :: "('a \<Rightarrow> py_error + bool) \<Rightarrow> 'a list \<Rightarrow> py_error + bool" where
  "any_err f [] = Inr False"
| "any_err f (x # xs) =
     (case f x of Inl e \<Rightarrow> Inl e | Inr b \<Rightarrow> if b then Inr True else any_err f xs)"

definition py_len :: "'a list \<Rightarrow> int" where
  "py_len xs = int (length xs)"

text \<open>\<open>range(a, b)\<close>; \<open>range(n)\<close> is \<open>py_range 0 n\<close>. Empty when \<open>b \<le> a\<close>.\<close>

definition py_range :: "int \<Rightarrow> int \<Rightarrow> int list" where
  "py_range a b = [a..b - 1]"

text \<open>\<open>range(a, b, s)\<close> for a positive step \<open>s\<close>.\<close>

definition py_range3 :: "int \<Rightarrow> int \<Rightarrow> int \<Rightarrow> int list" where
  "py_range3 a b s = map (\<lambda>i. a + i * s) [0..(b - a + s - 1) div s - 1]"

text \<open>\<open>a // b\<close>: floor division, as \<open>div\<close> on \<open>int\<close>; division by 0 raises.\<close>

definition py_floordiv :: "int \<Rightarrow> int \<Rightarrow> py_error + int" where
  "py_floordiv a b = (if b = 0 then Inl ZeroDivisionError else Inr (a div b))"

text \<open>\<open>min(xs)\<close> and \<open>max(xs)\<close> of a list: \<open>ValueError\<close> on the empty list.\<close>

definition py_min :: "int list \<Rightarrow> py_error + int" where
  "py_min xs = (case xs of [] \<Rightarrow> Inl ValueError | x # rest \<Rightarrow> Inr (fold min rest x))"

definition py_max :: "int list \<Rightarrow> py_error + int" where
  "py_max xs = (case xs of [] \<Rightarrow> Inl ValueError | x # rest \<Rightarrow> Inr (fold max rest x))"

text \<open>
  \<open>xs[i]\<close> and \<open>xs[i] = v\<close>: an index in \<open>-len(xs) .. len(xs)-1\<close> is accepted, a negative
  one counting from the end; any other index raises \<open>IndexError\<close>.
\<close>

definition py_getitem :: "'a list \<Rightarrow> int \<Rightarrow> py_error + 'a" where
  "py_getitem xs i =
     (if - py_len xs \<le> i \<and> i < py_len xs then Inr (xs ! nat (i mod py_len xs))
      else Inl IndexError)"

definition py_setitem :: "'a list \<Rightarrow> int \<Rightarrow> 'a \<Rightarrow> py_error + 'a list" where
  "py_setitem xs i v =
     (if - py_len xs \<le> i \<and> i < py_len xs then Inr (xs[nat (i mod py_len xs) := v])
      else Inl IndexError)"

text \<open>
  \<open>g[y][x]\<close> and \<open>g[y][x] = v\<close> on a list of rows. The rows of every grid the program
  writes to are created by a comprehension (\<open>[[False] * sw for _ in range(sh)]\<close>), so they
  are distinct objects and the write changes row \<open>y\<close> only.
\<close>

definition grid_get :: "'a list list \<Rightarrow> int \<Rightarrow> int \<Rightarrow> py_error + 'a" where
  "grid_get g y x = bind_err (py_getitem g y) (\<lambda>row. py_getitem row x)"

definition grid_set :: "'a list list \<Rightarrow> int \<Rightarrow> int \<Rightarrow> 'a \<Rightarrow> py_error + 'a list list" where
  "grid_set g y x v =
     bind_err (py_getitem g y) (\<lambda>row.
     bind_err (py_setitem row x v) (\<lambda>row'. py_setitem g y row'))"

section \<open>Downscaler: \<open>downscale_any\<close>\<close>

text \<open>
  \<open>any(mask[y][x] for y in range(y0, y1) for x in range(x0, x1))\<close>: the pairs are visited
  row by row, \<open>x\<close> fastest.
\<close>

definition block_any :: "bool list list \<Rightarrow> int \<Rightarrow> int \<Rightarrow> int \<Rightarrow> int \<Rightarrow> py_error + bool" where
  "block_any msk y0 y1 x0 x1 =
     any_err (\<lambda>(x, y). grid_get msk y x)
       [(x, y). y \<leftarrow> py_range y0 y1, x \<leftarrow> py_range x0 x1]"

text \<open>The body of the two nested loops of \<open>downscale_any\<close>, for the coarse cell \<open>(sx, sy)\<close>.\<close>

definition downscale_cell ::
  "bool list list \<Rightarrow> int \<Rightarrow> int \<Rightarrow> int \<Rightarrow> int \<times> int \<Rightarrow> bool list list \<Rightarrow> py_error + bool list list"
where
  "downscale_cell msk tile h w c small =
     (case c of (sx, sy) \<Rightarrow>
        let y0 = sy * tile; y1 = min ((sy + 1) * tile) h;
            x0 = sx * tile; x1 = min ((sx + 1) * tile) w
        in bind_err (block_any msk y0 y1 x0 x1) (\<lambda>v. grid_set small sy sx v))"

text \<open>
  \<open>downscale_any(mask, tile)\<close>. The floor division by \<open>tile\<close> raises
  \<open>ZeroDivisionError\<close> when \<open>tile\<close> is 0. The loops \<open>for sy in range(sh): for sx in range(sw)\<close>
  are one loop over the cells in row-major order.
\<close>

definition downscale_any ::
  "bool list list \<Rightarrow> int \<Rightarrow> py_error + (bool list list \<times> int \<times> int)"
where
  "downscale_any msk tile =
     (let h = py_len msk;
          w = (if h \<noteq> 0 then py_len (hd msk) else 0)
      in if tile = 0 then Inl ZeroDivisionError
         else
           let sw = (w + tile - 1) div tile;
               sh = (h + tile - 1) div tile;
               small = replicate (nat sh) (replicate (nat sw) False)
           in bind_err
                (fold_err (downscale_cell msk tile h w)
                   [(sx, sy). sy \<leftarrow> py_range 0 sh, sx \<leftarrow> py_range 0 sw] small)
                (\<lambda>small'. Inr (small', sw, sh)))"

section \<open>Grids: shape and lookup\<close>

text \<open>
  A grid of \<open>sh\<close> rows, each of \<open>sw\<close> cells; cell \<open>(x, y)\<close> is column \<open>x\<close> of row \<open>y\<close>.
\<close>

definition dims :: "'a list list \<Rightarrow> int \<Rightarrow> int \<Rightarrow> bool" where
  "dims g sw sh = (0 \<le> sw \<and> 0 \<le> sh \<and> length g = nat sh \<and> list_all (\<lambda>r. length r = nat sw) g)"

definition inb :: "int \<Rightarrow> int \<Rightarrow> int \<times> int \<Rightarrow> bool" where
  "inb sw sh c = (0 \<le> fst c \<and> fst c < sw \<and> 0 \<le> snd c \<and> snd c < sh)"

definition cell_val :: "'a list list \<Rightarrow> int \<times> int \<Rightarrow> 'a" where
  "cell_val g c = g ! nat (snd c) ! nat (fst c)"

text \<open>The grid after the write \<open>g[y][x] = v\<close> at an in-range cell \<open>c = (x, y)\<close>.\<close>

definition put :: "'a list list \<Rightarrow> int \<times> int \<Rightarrow> 'a \<Rightarrow> 'a list list" where
  "put g c v = g[nat (snd c) := (g ! nat (snd c))[nat (fst c) := v]]"

text \<open>The width the code reads off a mask: the length of its first row, 0 without rows.\<close>

definition grid_width :: "'a list list \<Rightarrow> int" where
  "grid_width g = (if g = [] then 0 else py_len (hd g))"

definition rect :: "'a list list \<Rightarrow> bool" where
  "rect g = dims g (grid_width g) (py_len g)"

section \<open>ComponentFinder: \<open>flood_components_8\<close>\<close>

lemma bind_err_Inr [simp]: "bind_err (Inr v) f = f v"
  by (simp add: bind_err_def)

lemma bind_err_Inl [simp]: "bind_err (Inl e) f = Inl e"
  by (simp add: bind_err_def)

lemma bind_err_eq_Inr:
  "bind_err m f = Inr r \<longleftrightarrow> (\<exists>v. m = Inr v \<and> f v = Inr r)"
  by (cases m) simp_all

definition nbrs :: "(int \<times> int) list" where
  "nbrs = [(dx, dy). dy \<leftarrow> [-1, 0, 1], dx \<leftarrow> [-1, 0, 1], \<not> (dx = 0 \<and> dy = 0)]"

definition try_nbr ::
  "bool list list \<Rightarrow> int \<Rightarrow> int \<Rightarrow> int \<times> int \<Rightarrow> int \<times> int \<Rightarrow>
     bool list list \<times> (int \<times> int) list \<Rightarrow> py_error + (bool list list \<times> (int \<times> int) list)"
where
  "try_nbr small sw sh c d s =
     (case c of (cx, cy) \<Rightarrow> case d of (dx, dy) \<Rightarrow> case s of (vis, q) \<Rightarrow>
        let nx = cx + dx; ny = cy + dy
        in if 0 \<le> nx \<and> nx < sw \<and> 0 \<le> ny \<and> ny < sh
           then bind_err (grid_get small ny nx) (\<lambda>occ.
                  if occ
                  then bind_err (grid_get vis ny nx) (\<lambda>seen.
                         if \<not> seen
                         then bind_err (grid_set vis ny nx True) (\<lambda>vis'. Inr (vis', q @ [(nx, ny)]))
                         else Inr (vis, q))
                  else Inr (vis, q))
           else Inr (vis, q))"

definition unseen :: "bool list list \<Rightarrow> nat" where
  "unseen vis = sum_list (map (\<lambda>row. length (filter Not row)) vis)"

lemma py_index_bound:
  assumes "- py_len xs \<le> i" "i < py_len xs"
  shows "nat (i mod py_len xs) < length xs"
proof -
  from assms have "0 < py_len xs" by linarith
  then have "i mod py_len xs < py_len xs" "0 \<le> i mod py_len xs" by simp_all
  then show ?thesis by (simp add: py_len_def nat_less_iff)
qed

lemma py_getitem_Inr:
  "py_getitem xs i = Inr v \<Longrightarrow> nat (i mod py_len xs) < length xs \<and> v = xs ! nat (i mod py_len xs)"
  by (auto simp: py_getitem_def py_index_bound split: if_splits)


lemma py_setitem_Inr:
  "py_setitem xs i v = Inr ys \<Longrightarrow> nat (i mod py_len xs) < length xs \<and> ys = xs[nat (i mod py_len xs) := v]"
  by (auto simp: py_setitem_def py_index_bound split: if_splits)

lemma filter_Not_update:
  "k < length row \<Longrightarrow> \<not> row ! k \<Longrightarrow>
     Suc (length (filter Not (row[k := True]))) = length (filter Not row)"
proof (induction row arbitrary: k)
  case Nil
  then show ?case by simp
next
  case (Cons b row)
  then show ?case by (cases k) auto
qed

lemma unseen_update:
  assumes "j < length vis" "k < length (vis ! j)" "\<not> vis ! j ! k"
  shows "Suc (unseen (vis[j := (vis ! j)[k := True]])) = unseen vis"
proof -
  let ?f = "\<lambda>row. length (filter Not row)"
  have "?f (vis ! j) \<in> set (map ?f vis)"
    using assms(1) by simp
  then have "?f (vis ! j) \<le> sum_list (map ?f vis)"
    using member_le_sum_list[of "?f (vis ! j)" "map ?f vis"] by simp
  moreover have "sum_list ((map ?f vis)[j := ?f ((vis ! j)[k := True])])
        = sum_list (map ?f vis) + ?f ((vis ! j)[k := True]) - ?f (vis ! j)"
    using assms(1) by (simp add: sum_list_update)
  moreover note filter_Not_update[OF assms(2,3)]
  ultimately show ?thesis
    by (simp add: unseen_def map_update)
qed

lemma grid_mark_unseen:
  assumes "grid_get vis y x = Inr False" "grid_set vis y x True = Inr vis'"
  shows "Suc (unseen vis') = unseen vis"
proof -
  from assms(1) obtain row where row: "py_getitem vis y = Inr row" "py_getitem row x = Inr False"
    by (auto simp: grid_get_def bind_err_eq_Inr)
  let ?j = "nat (y mod py_len vis)" and ?k = "nat (x mod py_len row)"
  from py_getitem_Inr[OF row(1)] have j: "?j < length vis" "row = vis ! ?j" by simp_all
  from py_getitem_Inr[OF row(2)] have k: "?k < length row" "\<not> row ! ?k" by simp_all
  from assms(2) row(1) obtain row' where
    row': "py_setitem row x True = Inr row'" "py_setitem vis y row' = Inr vis'"
    by (auto simp: grid_set_def bind_err_eq_Inr)
  from py_setitem_Inr[OF row'(1)] py_setitem_Inr[OF row'(2)]
  have "vis' = vis[?j := (vis ! ?j)[?k := True]]" using j(2) by simp
  with unseen_update[of ?j vis ?k] j k show ?thesis by simp
qed

lemma try_nbr_unfold:
  "try_nbr small sw sh c d (vis, q) =
     (if inb sw sh (fst c + fst d, snd c + snd d)
      then bind_err (grid_get small (snd c + snd d) (fst c + fst d)) (\<lambda>occ.
             if occ
             then bind_err (grid_get vis (snd c + snd d) (fst c + fst d)) (\<lambda>seen.
                    if \<not> seen
                    then bind_err (grid_set vis (snd c + snd d) (fst c + fst d) True)
                           (\<lambda>vis'. Inr (vis', q @ [(fst c + fst d, snd c + snd d)]))
                    else Inr (vis, q))
             else Inr (vis, q))
      else Inr (vis, q))"
  by (cases c, cases d) (simp add: try_nbr_def Let_def inb_def cong: if_cong)

lemma try_nbr_cases:
  assumes "try_nbr small sw sh c d (vis, q) = Inr (vis', q')"
  defines "n \<equiv> (fst c + fst d, snd c + snd d)"
  shows "(vis' = vis \<and> q' = q \<and>
            \<not> (inb sw sh n \<and> grid_get small (snd n) (fst n) = Inr True
                \<and> grid_get vis (snd n) (fst n) = Inr False))
       \<or> (inb sw sh n \<and> grid_get small (snd n) (fst n) = Inr True
            \<and> grid_get vis (snd n) (fst n) = Inr False
            \<and> grid_set vis (snd n) (fst n) True = Inr vis' \<and> q' = q @ [n])"
proof (cases "inb sw sh n")
  case False
  with assms(1) show ?thesis
    unfolding try_nbr_unfold by (simp add: n_def cong: if_cong)
next
  case True
  with assms(1) have eq:
      "bind_err (grid_get small (snd n) (fst n)) (\<lambda>occ.
                  if occ
                  then bind_err (grid_get vis (snd n) (fst n)) (\<lambda>seen.
                         if \<not> seen
                         then bind_err (grid_set vis (snd n) (fst n) True) (\<lambda>vis'. Inr (vis', q @ [n]))
                         else Inr (vis, q))
                  else Inr (vis, q)) = Inr (vis', q')"
    unfolding try_nbr_unfold by (simp add: n_def cong: if_cong)
  show ?thesis
  proof (cases "grid_get small (snd n) (fst n)")
    case (Inl e)
    with eq show ?thesis by simp
  next
    case occ: (Inr occ)
    show ?thesis
    proof (cases occ)
      case False
      with eq occ show ?thesis by simp
    next
      case occT: True
      show ?thesis
      proof (cases "grid_get vis (snd n) (fst n)")
        case (Inl e)
        with eq occ occT show ?thesis by simp
      next
        case seen: (Inr seen)
        show ?thesis
        proof (cases seen)
          case True
          with eq occ occT seen show ?thesis by simp
        next
          case False
          with eq occ occT seen True show ?thesis
            by (cases "grid_set vis (snd n) (fst n) True") simp_all
        qed
      qed
    qed
  qed
qed

lemma try_nbr_measure:
  assumes "try_nbr small sw sh c d (vis, q) = Inr (vis', q')"
  shows "unseen vis' + length q' = unseen vis + length q"
proof -
  from try_nbr_cases[OF assms] show ?thesis
  proof (elim disjE conjE)
    assume "vis' = vis" "q' = q"
    then show ?thesis by simp
  next
    let ?n = "(fst c + fst d, snd c + snd d)"
    assume "grid_get vis (snd ?n) (fst ?n) = Inr False"
      "grid_set vis (snd ?n) (fst ?n) True = Inr vis'" "q' = q @ [?n]"
    with grid_mark_unseen[of vis "snd ?n" "fst ?n" vis'] show ?thesis by simp
  qed
qed

lemma fold_try_nbr_measure:
  assumes "fold_err (try_nbr small sw sh c) ds (vis, q) = Inr (vis', q')"
  shows "unseen vis' + length q' = unseen vis + length q"
  using assms
proof (induction ds arbitrary: vis q)
  case Nil
  then show ?case by simp
next
  case (Cons d ds)
  then obtain vis1 q1 where s1: "try_nbr small sw sh c d (vis, q) = Inr (vis1, q1)"
    and rest: "fold_err (try_nbr small sw sh c) ds (vis1, q1) = Inr (vis', q')"
    by (auto split: sum.splits)
  from Cons.IH[OF rest] try_nbr_measure[OF s1] show ?case by simp
qed

function bfs ::
  "bool list list \<Rightarrow> int \<Rightarrow> int \<Rightarrow> (int \<times> int) list \<Rightarrow> bool list list \<Rightarrow> (int \<times> int) list \<Rightarrow>
     py_error + (bool list list \<times> (int \<times> int) list)"
where
  "bfs small sw sh [] vis cells = Inr (vis, cells)"
| "bfs small sw sh (c # q) vis cells =
     (case fold_err (try_nbr small sw sh c) nbrs (vis, q) of
        Inl e \<Rightarrow> Inl e
      | Inr (vis', q') \<Rightarrow> bfs small sw sh q' vis' (cells @ [c]))"
  by pat_completeness auto
termination
proof (relation "measure (\<lambda>(small, sw, sh, q, vis, cells). unseen vis + length q)")
  show "wf (measure (\<lambda>(small, sw, sh, q, vis, cells). unseen vis + length q))"
    by simp
next
  fix small :: "bool list list" and sw sh :: int and c :: "int \<times> int"
    and q q' :: "(int \<times> int) list" and vis vis' :: "bool list list"
    and cells :: "(int \<times> int) list" and r
  assume "fold_err (try_nbr small sw sh c) nbrs (vis, q) = Inr r" and "(vis', q') = r"
  then have "fold_err (try_nbr small sw sh c) nbrs (vis, q) = Inr (vis', q')" by simp
  from fold_try_nbr_measure[OF this]
  show "((small, sw, sh, q', vis', cells @ [c]), (small, sw, sh, c # q, vis, cells))
          \<in> measure (\<lambda>(small, sw, sh, q, vis, cells). unseen vis + length q)"
    by simp
qed

declare bfs.simps [simp del]

definition scan_cell ::
  "bool list list \<Rightarrow> int \<Rightarrow> int \<Rightarrow> int \<times> int \<Rightarrow>
     bool list list \<times> (int \<times> int) list list \<Rightarrow> py_error + (bool list list \<times> (int \<times> int) list list)"
where
  "scan_cell small sw sh p s =
     (case p of (x, y) \<Rightarrow> case s of (vis, comps) \<Rightarrow>
        bind_err (grid_get small y x) (\<lambda>occ.
          if \<not> occ then Inr (vis, comps)
          else bind_err (grid_get vis y x) (\<lambda>seen.
            if seen then Inr (vis, comps)
            else bind_err (grid_set vis y x True) (\<lambda>vis1.
                 bind_err (bfs small sw sh [(x, y)] vis1 []) (\<lambda>(vis2, cells).
                 Inr (vis2, comps @ [cells]))))))"

definition flood_components_8 :: "bool list list \<Rightarrow> py_error + (int \<times> int) list list" where
  "flood_components_8 small =
     (let sh = py_len small;
          sw = (if sh \<noteq> 0 then py_len (hd small) else 0);
          vis = replicate (nat sh) (replicate (nat sw) False)
      in bind_err
           (fold_err (scan_cell small sw sh)
              [(x, y). y \<leftarrow> py_range 0 sh, x \<leftarrow> py_range 0 sw] (vis, []))
           (\<lambda>(vis', comps). Inr comps))"

subsection \<open>Notions for stating what the ComponentFinder computes\<close>

text \<open>The cells of a \<open>sw\<close> by \<open>sh\<close> grid that hold \<open>True\<close>.\<close>

definition marked :: "bool list list \<Rightarrow> int \<Rightarrow> int \<Rightarrow> (int \<times> int) set" where
  "marked g sw sh = {c. inb sw sh c \<and> cell_val g c}"

text \<open>The occupied cells of a coarse grid, with the size the code reads off it.\<close>

definition occupied :: "bool list list \<Rightarrow> (int \<times> int) set" where
  "occupied small = marked small (grid_width small) (py_len small)"

text \<open>Two cells at Chebyshev distance 1: the eight neighbours of a cell.\<close>

definition adj8 :: "int \<times> int \<Rightarrow> int \<times> int \<Rightarrow> bool" where
  "adj8 a b = (max \<bar>fst a - fst b\<bar> \<bar>snd a - snd b\<bar> = 1)"

definition shift :: "int \<times> int \<Rightarrow> int \<times> int \<Rightarrow> int \<times> int" where
  "shift c d = (fst c + fst d, snd c + snd d)"

text \<open>
  \<open>linked S xs\<close>: every cell of \<open>xs\<close> is a neighbour of a cell of \<open>S\<close> or of a cell
  before it in \<open>xs\<close>. A list is a \<open>chain\<close> when this holds from its first cell on, so all
  its cells are reachable from the first one through neighbours inside the list.
\<close>

fun linked :: "(int \<times> int) set \<Rightarrow> (int \<times> int) list \<Rightarrow> bool" where
  "linked S [] = True"
| "linked S (x # xs) = ((\<exists>a\<in>S. adj8 a x) \<and> linked (insert x S) xs)"

definition chain :: "(int \<times> int) list \<Rightarrow> bool" where
  "chain xs = (case xs of [] \<Rightarrow> True | x # rest \<Rightarrow> linked {x} rest)"

text \<open>Row-major order on cells \<open>(x, y)\<close>: by \<open>y\<close>, then by \<open>x\<close>.\<close>

definition rm_key :: "int \<times> int \<Rightarrow> int \<times> int" where
  "rm_key c = (snd c, fst c)"

text \<open>The top-most, then left-most cell of a non-empty component.\<close>

definition seed :: "(int \<times> int) list \<Rightarrow> int \<times> int" where
  "seed cells = (let k = Min (set (map rm_key cells)) in (snd k, fst k))"

text \<open>The scan order of \<open>for y in range(sh): for x in range(sw)\<close>.\<close>

definition scan_order :: "int \<Rightarrow> int \<Rightarrow> (int \<times> int) list" where
  "scan_order sw sh = [(x, y). y \<leftarrow> py_range 0 sh, x \<leftarrow> py_range 0 sw]"

text \<open>A set of cells that contains every occupied neighbour of each of its cells.\<close>

definition closed_under :: "(int \<times> int) set \<Rightarrow> (int \<times> int) set \<Rightarrow> bool" where
  "closed_under occ C = (\<forall>a\<in>C. \<forall>b\<in>occ. adj8 a b \<longrightarrow> b \<in> C)"

text \<open>
  The state of the scan after the cells \<open>seen\<close> of the scan order: the visited cells are
  the cells of the components found so far, each component starts at its seed, and every
  occupied cell already scanned is visited.
\<close>

definition scan_inv ::
  "bool list list \<Rightarrow> int \<Rightarrow> int \<Rightarrow> (int \<times> int) list \<Rightarrow>
     bool list list \<times> (int \<times> int) list list \<Rightarrow> bool"
where
  "scan_inv small sw sh seen s =
     (dims (fst s) sw sh
      \<and> marked (fst s) sw sh = set (concat (snd s))
      \<and> distinct (concat (snd s))
      \<and> set (concat (snd s)) \<subseteq> marked small sw sh
      \<and> set seen \<inter> marked small sw sh \<subseteq> marked (fst s) sw sh
      \<and> list_all (\<lambda>C. C \<noteq> [] \<and> chain C \<and> closed_under (marked small sw sh) (set C)
                      \<and> hd C \<in> set seen \<and> list_all (\<lambda>c. rm_key (hd C) \<le> rm_key c) C) (snd s)
      \<and> sorted_wrt (\<lambda>a b. rm_key a < rm_key b) (map hd (snd s)))"

definition rm_less :: "int \<times> int \<Rightarrow> int \<times> int \<Rightarrow> bool" where
  "rm_less a b = (snd a < snd b \<or> (snd a = snd b \<and> fst a < fst b))"

section \<open>Images and the ForegroundMaskBuilder\<close>

text \<open>
  The image library is not part of the repository; the program uses an image through
  \<open>size\<close>, \<open>getbands()\<close>, \<open>convert(...)\<close>, \<open>load()\<close>, \<open>crop(...)\<close> and \<open>save(...)\<close>. An image is
  modelled by its size \<open>(w, h)\<close>, the names of its bands, and its pixels as RGBA values
  \<open>(r, g, b, a)\<close>. The pixel access object that \<open>load()\<close> returns is indexed by \<open>(x, y)\<close>
  with \<open>0 \<le> x < w\<close> and \<open>0 \<le> y < h\<close>; the program only reads and writes it inside
  \<open>range(w)\<close> and \<open>range(h)\<close> of the same image, where the access cannot raise.

  An image has an alpha channel when \<open>"A"\<close> is one of its bands. For an image without
  one, the fourth component of \<open>im_px\<close> is not part of the image: \<open>convert("RGB")\<close> drops it
  and \<open>convert("RGBA")\<close> makes every pixel opaque (alpha 255). Images whose transparency is
  stored outside an alpha band are not covered by this model.
\<close>

type_synonym rgb = "nat \<times> nat \<times> nat"
type_synonym rgba = "nat \<times> nat \<times> nat \<times> nat"

record image =
  im_size :: "nat \<times> nat"
  im_bands :: "string list"
  im_px :: "int \<times> int \<Rightarrow> rgba"

definition width :: "image \<Rightarrow> int" where
  "width img = int (fst (im_size img))"

definition height :: "image \<Rightarrow> int" where
  "height img = int (snd (im_size img))"

definition rgb_of :: "rgba \<Rightarrow> rgb" where
  "rgb_of p = (case p of (r, g, b, a) \<Rightarrow> (r, g, b))"

definition alpha_of :: "rgba \<Rightarrow> nat" where
  "alpha_of p = (case p of (r, g, b, a) \<Rightarrow> a)"

definition has_alpha :: "image \<Rightarrow> bool" where
  "has_alpha img = (''A'' \<in> set (im_bands img))"

text \<open>\<open>img.convert("RGBA")\<close>: a new image; the alpha of an image without alpha band is 255.\<close>

definition convert_rgba :: "image \<Rightarrow> image" where
  "convert_rgba img =
     \<lparr>im_size = im_size img, im_bands = [''R'', ''G'', ''B'', ''A''],
      im_px = (\<lambda>p. case im_px img p of (r, g, b, a) \<Rightarrow>
                  (r, g, b, if has_alpha img then a else 255))\<rparr>"

text \<open>\<open>img.convert("RGB").load()[x, y]\<close>.\<close>

definition rgb_at :: "image \<Rightarrow> int \<times> int \<Rightarrow> rgb" where
  "rgb_at img p = rgb_of (im_px img p)"

subsection \<open>\<open>collections.Counter\<close>\<close>

text \<open>
  A \<open>Counter\<close> is a dictionary: it keeps its keys in the order of their first insertion.
  \<open>Counter(iterable)\<close> counts the elements from left to right. \<open>most_common(1)\<close> is
  \<open>max(items, key=count)\<close>, which keeps the first of several maximal items: a later
  item replaces the current one only when its count is strictly greater.
\<close>

fun counter_add :: "('a \<times> nat) list \<Rightarrow> 'a \<Rightarrow> ('a \<times> nat) list" where
  "counter_add [] k = [(k, 1)]"
| "counter_add ((k', n) # kvs) k =
     (if k' = k then (k', Suc n) # kvs else (k', n) # counter_add kvs k)"

definition counter :: "'a list \<Rightarrow> ('a \<times> nat) list" where
  "counter xs = foldl counter_add [] xs"

fun max_first :: "'a \<times> nat \<Rightarrow> ('a \<times> nat) list \<Rightarrow> 'a \<times> nat" where
  "max_first best [] = best"
| "max_first best (kv # kvs) = max_first (if snd best < snd kv then kv else best) kvs"

definition most_common_1 :: "('a \<times> nat) list \<Rightarrow> ('a \<times> nat) list" where
  "most_common_1 c = (case c of [] \<Rightarrow> [] | kv # kvs \<Rightarrow> [max_first kv kvs])"

subsection \<open>\<open>most_common_rgb\<close> and \<open>foreground_mask\<close>\<close>

text \<open>The pixels \<open>most_common_rgb\<close> counts, in the order of the generator.\<close>

definition sample_step :: "image \<Rightarrow> int" where
  "sample_step img = (if width img * height img \<le> 2000000 then 1 else 2)"

definition samples :: "image \<Rightarrow> rgb list" where
  "samples img =
     [rgb_at img (x, y).
        y \<leftarrow> py_range3 0 (height img) (sample_step img),
        x \<leftarrow> py_range3 0 (width img) (sample_step img)]"

text \<open>\<open>c.most_common(1)[0][0] if c else (0, 0, 0)\<close>: an empty counter is falsy.\<close>

definition most_common_rgb :: "image \<Rightarrow> rgb" where
  "most_common_rgb img =
     (let c = counter (samples img)
      in case most_common_1 c of [] \<Rightarrow> (0, 0, 0) | kv # rest \<Rightarrow> fst kv)"

definition foreground_mask :: "image \<Rightarrow> bool list list" where
  "foreground_mask img =
     (let w = width img; h = height img
      in if has_alpha img
         then [[0 < alpha_of (im_px img (x, y)). x \<leftarrow> py_range 0 w]. y \<leftarrow> py_range 0 h]
         else let bg = most_common_rgb img
              in [[rgb_at img (x, y) \<noteq> bg. x \<leftarrow> py_range 0 w]. y \<leftarrow> py_range 0 h])"

subsection \<open>Notions for stating the choice of the background colour\<close>

text \<open>The position of the first occurrence of \<open>c\<close> in \<open>xs\<close> (\<open>length xs\<close> when there is none).\<close>

definition first_pos :: "'a list \<Rightarrow> 'a \<Rightarrow> nat" where
  "first_pos xs c = length (takeWhile (\<lambda>x. x \<noteq> c) xs)"

section \<open>ComponentSorter: \<open>sort_components\<close>\<close>

text \<open>
  \<open>sorted(xs, key=f)\<close> computes the key of every element first, from left to right, and
  then sorts stably by the keys. A stable sort has one result, the one of the insertion
  sort \<open>sort_key\<close>. Tuples are compared lexicographically, as nested pairs are here.
\<close>

definition py_sorted :: "('a \<Rightarrow> py_error + 'k::linorder) \<Rightarrow> 'a list \<Rightarrow> py_error + 'a list" where
  "py_sorted key xs =
     bind_err (map_err key xs) (\<lambda>ks. Inr (map snd (sort_key fst (zip ks xs))))"

definition bbox_key :: "(int \<times> int) list \<Rightarrow> py_error + (int \<times> int \<times> int \<times> int)" where
  "bbox_key cells =
     (let xs = map fst cells; ys = map snd cells
      in bind_err (py_min ys) (\<lambda>y0.
         bind_err (py_min xs) (\<lambda>x0.
         bind_err (py_max ys) (\<lambda>y1.
         bind_err (py_max xs) (\<lambda>x1. Inr (y0, x0, y1, x1))))))"

definition size_key :: "(int \<times> int) list \<Rightarrow> int" where
  "size_key cells = - py_len cells"

definition sort_components ::
  "(int \<times> int) list list \<Rightarrow> string \<Rightarrow> py_error + (int \<times> int) list list"
where
  "sort_components comps mode =
     (if mode = ''none'' then Inr comps
      else if mode = ''topleft'' then py_sorted bbox_key comps
      else if mode = ''size'' then py_sorted (\<lambda>cells. Inr (size_key cells)) comps
      else Inl ValueError)"

subsection \<open>Notions for stating the sort laws\<close>

text \<open>The bounding box tuple \<open>(min_y, min_x, max_y, max_x)\<close> of a non-empty component.\<close>

definition bbox :: "(int \<times> int) list \<Rightarrow> int \<times> int \<times> int \<times> int" where
  "bbox cells = (Min (snd ` set cells), Min (fst ` set cells),
                 Max (snd ` set cells), Max (fst ` set cells))"

text \<open>Lexicographic order on 4-tuples, written out.\<close>

definition lex4_le :: "int \<times> int \<times> int \<times> int \<Rightarrow> int \<times> int \<times> int \<times> int \<Rightarrow> bool" where
  "lex4_le a b =
     (case a of (a1, a2, a3, a4) \<Rightarrow> case b of (b1, b2, b3, b4) \<Rightarrow>
        a1 < b1 \<or> (a1 = b1 \<and> (a2 < b2 \<or> (a2 = b2 \<and> (a3 < b3 \<or> (a3 = b3 \<and> a4 \<le> b4))))))"

section \<open>Example inputs\<close>

text \<open>
  The mask of a 4 by 4 sheet whose only foreground pixels are \<open>(0, 0)\<close> and \<open>(3, 3)\<close>.
\<close>

definition scenario_mask :: "bool list list" where
  "scenario_mask = [[True, False, False, False], [False, False, False, False],
                    [False, False, False, False], [False, False, False, True]]"

text \<open>Its coarse grid for tile size 2: the two occupied cells touch at a corner.\<close>

definition scenario_small :: "bool list list" where
  "scenario_small = [[True, False], [False, True]]"

text \<open>A coarse grid with three components; the cell \<open>(3, 0)\<close> is isolated.\<close>

definition three_grid :: "bool list list" where
  "three_grid = [[False, True, False, True],
                 [True, False, False, False],
                 [False, False, False, False],
                 [False, False, True, True]]"

text \<open>
  A 2 by 2 image without alpha channel in which red and blue both occur twice; red comes
  first in the sampling order.
\<close>

definition tie_image :: image where
  "tie_image =
     \<lparr>im_size = (2, 2), im_bands = [''R'', ''G'', ''B''],
      im_px = (\<lambda>p. if p = (0, 0) \<or> p = (1, 1) then (255, 0, 0, 0) else (0, 0, 255, 0))\<rparr>"

text \<open>
  The 4 by 4 sheet with alpha channel that is transparent except for the opaque pixels
  \<open>(0, 0)\<close> and \<open>(3, 3)\<close>.
\<close>

definition scenario_image :: image where
  "scenario_image =
     \<lparr>im_size = (4, 4), im_bands = [''R'', ''G'', ''B'', ''A''],
      im_px = (\<lambda>p. if p = (0, 0) \<or> p = (3, 3) then (200, 10, 10, 255) else (0, 0, 0, 0))\<rparr>"

section \<open>Facts about grids\<close>

lemma py_getitem_nonneg:
  "0 \<le> i \<Longrightarrow> i < py_len xs \<Longrightarrow> py_getitem xs i = Inr (xs ! nat i)"
  by (simp add: py_getitem_def py_len_def)

lemma py_setitem_nonneg:
  "0 \<le> i \<Longrightarrow> i < py_len xs \<Longrightarrow> py_setitem xs i v = Inr (xs[nat i := v])"
  by (simp add: py_setitem_def py_len_def)

lemma dims_row:
  "dims g sw sh \<Longrightarrow> 0 \<le> y \<Longrightarrow> y < sh \<Longrightarrow> length (g ! nat y) = nat sw"
  by (auto simp: dims_def list_all_length)

lemma grid_get_inb:
  assumes "dims g sw sh" "inb sw sh c"
  shows "grid_get g (snd c) (fst c) = Inr (cell_val g c)"
proof -
  from assms have y: "0 \<le> snd c" "snd c < py_len g"
    by (auto simp: dims_def inb_def py_len_def)
  from assms have "length (g ! nat (snd c)) = nat sw"
    by (auto simp: inb_def intro: dims_row)
  with assms have x: "0 \<le> fst c" "fst c < py_len (g ! nat (snd c))"
    by (auto simp: inb_def py_len_def)
  show ?thesis
    by (simp add: grid_get_def cell_val_def py_getitem_nonneg y x)
qed


lemma grid_set_inb:
  assumes "dims g sw sh" "inb sw sh c"
  shows "grid_set g (snd c) (fst c) v = Inr (put g c v)"
proof -
  from assms have y: "0 \<le> snd c" "snd c < py_len g"
    by (auto simp: dims_def inb_def py_len_def)
  from assms have "length (g ! nat (snd c)) = nat sw"
    by (auto simp: inb_def intro: dims_row)
  with assms have x: "0 \<le> fst c" "fst c < py_len (g ! nat (snd c))"
    by (auto simp: inb_def py_len_def)
  show ?thesis
    by (simp add: grid_set_def put_def py_getitem_nonneg py_setitem_nonneg y x)
qed

lemma dims_put:
  assumes "dims g sw sh" "inb sw sh c"
  shows "dims (put g c v) sw sh"
proof -
  have "length (put g c v ! n) = nat sw" if "n < nat sh" for n
    using assms that by (cases "n = nat (snd c)") (auto simp: dims_def put_def list_all_length)
  with assms show ?thesis
    by (auto simp: dims_def list_all_length put_def)
qed

lemma cell_val_put:
  assumes "dims g sw sh" "inb sw sh c" "inb sw sh c'"
  shows "cell_val (put g c v) c' = (if c' = c then v else cell_val g c')"
proof -
  from assms have ly: "nat (snd c) < length g" "nat (snd c') < length g"
    by (auto simp: dims_def inb_def)
  from assms have lx: "nat (fst c) < length (g ! nat (snd c))"
    using dims_row[of g sw sh "snd c"] by (auto simp: inb_def)
  from assms have eq: "c' = c \<longleftrightarrow> nat (snd c') = nat (snd c) \<and> nat (fst c') = nat (fst c)"
    by (auto simp: inb_def prod_eq_iff)
  show ?thesis
    using ly lx eq by (auto simp: cell_val_def put_def nth_list_update)
qed

lemma any_err_total:
  assumes "\<And>p. p \<in> set ps \<Longrightarrow> f p = Inr (g p)"
  shows "any_err f ps = Inr (\<exists>p\<in>set ps. g p)"
  using assms by (induction ps) auto

lemma set_pairs:
  "set [(x, y). y \<leftarrow> py_range y0 y1, x \<leftarrow> py_range x0 x1] =
     {(x, y). y0 \<le> y \<and> y < y1 \<and> x0 \<le> x \<and> x < x1}"
  by (auto simp: py_range_def)

lemma distinct_product_rows:
  "distinct xs \<Longrightarrow> distinct ys \<Longrightarrow> distinct (concat (map (\<lambda>y. map (\<lambda>x. (x, y)) xs) ys))"
  by (induction ys) (auto simp: distinct_map inj_on_def)

lemma distinct_pairs:
  "distinct [(x, y). y \<leftarrow> py_range y0 y1, x \<leftarrow> py_range x0 x1]"
  by (simp add: distinct_product_rows py_range_def)

lemma ceil_div_code:
  fixes w t :: int
  assumes "1 \<le> t"
  shows "(w + t - 1) div t = \<lceil>real_of_int w / real_of_int t\<rceil>"
proof -
  define r where "r = w mod t"
  have r: "0 \<le> r" "r < t" using assms by (simp_all add: r_def)
  have "w + t - 1 = (r + t - 1) + (w div t) * t"
    by (simp add: r_def algebra_simps)
  moreover have "((r + t - 1) + (w div t) * t) div t = w div t + (r + t - 1) div t"
    using assms by simp
  ultimately have split: "(w + t - 1) div t = w div t + (r + t - 1) div t"
    by (simp only:)
  have "(r + t - 1) div t = (if r = 0 then 0 else 1)"
  proof (cases "r = 0")
    case True
    then show ?thesis using assms by (simp add: div_pos_pos_trivial)
  next
    case False
    have "r + t - 1 = (r - 1) + 1 * t" by simp
    moreover have "((r - 1) + 1 * t) div t = 1 + (r - 1) div t"
      using assms by (simp only: div_mult_self1) 
    ultimately have "(r + t - 1) div t = 1 + (r - 1) div t" by (simp only:)
    with False r show ?thesis by (simp add: div_pos_pos_trivial)
  qed
  with split have "(w + t - 1) div t = - (- w div t)"
    using assms by (simp add: zdiv_zminus1_eq_if r_def)
  then show ?thesis by (simp add: ceiling_divide_eq_div)
qed

lemma fold_fill:
  assumes "dims g sw sh" "distinct ps" "\<forall>p\<in>set ps. inb sw sh p"
    and "\<forall>p\<in>set ps. val p = Inr (v p)"
  shows "\<exists>g'. fold_err (\<lambda>c g. bind_err (val c) (\<lambda>b. grid_set g (snd c) (fst c) b)) ps g = Inr g'
           \<and> dims g' sw sh
           \<and> (\<forall>c. inb sw sh c \<longrightarrow> cell_val g' c = (if c \<in> set ps then v c else cell_val g c))"
  using assms
proof (induction ps arbitrary: g)
  case Nil
  then show ?case by simp
next
  case (Cons p ps)
  let ?g1 = "put g p (v p)"
  from Cons.prems have p: "inb sw sh p" "val p = Inr (v p)" "p \<notin> set ps" by auto
  have d1: "dims ?g1 sw sh" using Cons.prems(1) p(1) by (rule dims_put)
  from Cons.IH[OF d1] Cons.prems obtain g' where
    g': "fold_err (\<lambda>c g. bind_err (val c) (\<lambda>b. grid_set g (snd c) (fst c) b)) ps ?g1 = Inr g'"
        "dims g' sw sh"
        "\<forall>c. inb sw sh c \<longrightarrow> cell_val g' c = (if c \<in> set ps then v c else cell_val ?g1 c)"
    by auto
  have step: "bind_err (val p) (\<lambda>b. grid_set g (snd p) (fst p) b) = Inr ?g1"
    using p Cons.prems(1) by (simp add: grid_set_inb)
  have "cell_val g' c = (if c \<in> set (p # ps) then v c else cell_val g c)" if "inb sw sh c" for c
    using g'(3)[rule_format, OF that] p cell_val_put[OF Cons.prems(1) p(1) that] by auto
  with g' step show ?case by auto
qed

section \<open>The Downscaler is correct\<close>

lemma dims_replicate:
  "0 \<le> sw \<Longrightarrow> 0 \<le> sh \<Longrightarrow> dims (replicate (nat sh) (replicate (nat sw) v)) sw sh"
  by (simp add: dims_def list_all_length)

lemma rect_dims: "rect g \<Longrightarrow> dims g (grid_width g) (py_len g)"
  by (simp add: rect_def)

lemma block_any_inb:
  assumes "dims msk w h" "0 \<le> y0" "0 \<le> x0" "y1 \<le> h" "x1 \<le> w"
  shows "block_any msk y0 y1 x0 x1 =
           Inr (\<exists>x y. x0 \<le> x \<and> x < x1 \<and> y0 \<le> y \<and> y < y1 \<and> msk ! nat y ! nat x)"
proof -
  let ?ps = "[(x, y). y \<leftarrow> py_range y0 y1, x \<leftarrow> py_range x0 x1]"
  have "(case p of (x, y) \<Rightarrow> grid_get msk y x) = Inr (cell_val msk p)" if "p \<in> set ?ps" for p
  proof -
    from that assms have "inb w h p"
      unfolding set_pairs by (auto simp: inb_def)
    from grid_get_inb[OF assms(1) this] show ?thesis
      by (simp add: case_prod_beta)
  qed
  then have "block_any msk y0 y1 x0 x1 = Inr (\<exists>p\<in>set ?ps. cell_val msk p)"
    unfolding block_any_def by (rule any_err_total)
  also have "(\<exists>p\<in>set ?ps. cell_val msk p) \<longleftrightarrow>
      (\<exists>x y. x0 \<le> x \<and> x < x1 \<and> y0 \<le> y \<and> y < y1 \<and> msk ! nat y ! nat x)"
    unfolding set_pairs by (auto simp: cell_val_def)
  finally show ?thesis .
qed

lemma downscale_any_Inr:
  assumes "rect msk" "1 \<le> t"
  defines "w \<equiv> grid_width msk" and "h \<equiv> py_len msk"
  defines "sw \<equiv> (w + t - 1) div t" and "sh \<equiv> (h + t - 1) div t"
  shows "\<exists>small. downscale_any msk t = Inr (small, sw, sh) \<and> dims small sw sh \<and>
     (\<forall>c. inb sw sh c \<longrightarrow>
        (cell_val small c \<longleftrightarrow>
          (\<exists>x y. fst c * t \<le> x \<and> x < min ((fst c + 1) * t) w \<and>
                 snd c * t \<le> y \<and> y < min ((snd c + 1) * t) h \<and> msk ! nat y ! nat x)))"
proof -
  have dm: "dims msk w h" using assms(1) by (simp add: rect_def w_def h_def)
  then have wh: "0 \<le> w" "0 \<le> h" by (simp_all add: dims_def)
  have s0: "0 \<le> sw" "0 \<le> sh"
    using wh assms(2) by (simp_all add: sw_def sh_def pos_imp_zdiv_nonneg_iff)
  define val where "val c = block_any msk (snd c * t) (min ((snd c + 1) * t) h)
                              (fst c * t) (min ((fst c + 1) * t) w)" for c
  define v where "v c \<longleftrightarrow> (\<exists>x y. fst c * t \<le> x \<and> x < min ((fst c + 1) * t) w \<and>
                 snd c * t \<le> y \<and> y < min ((snd c + 1) * t) h \<and> msk ! nat y ! nat x)" for c
  let ?ps = "[(sx, sy). sy \<leftarrow> py_range 0 sh, sx \<leftarrow> py_range 0 sw]"
  let ?g0 = "replicate (nat sh) (replicate (nat sw) False)"
  have body: "downscale_cell msk t h w = (\<lambda>c g. bind_err (val c) (\<lambda>b. grid_set g (snd c) (fst c) b))"
    by (intro ext) (simp add: downscale_cell_def val_def case_prod_beta Let_def)
  have ps_inb: "\<forall>p\<in>set ?ps. inb sw sh p"
    unfolding set_pairs by (auto simp: inb_def)
  have vals: "\<forall>p\<in>set ?ps. val p = Inr (v p)"
  proof
    fix p assume "p \<in> set ?ps"
    with ps_inb have "inb sw sh p" by blast
    then have "0 \<le> snd p * t" "0 \<le> fst p * t" using assms(2) by (simp_all add: inb_def)
    then show "val p = Inr (v p)"
      unfolding val_def v_def by (intro block_any_inb[OF dm]) simp_all
  qed
  from fold_fill[OF dims_replicate[OF s0] distinct_pairs ps_inb vals, of False]
  obtain g' where g': "fold_err (\<lambda>c g. bind_err (val c) (\<lambda>b. grid_set g (snd c) (fst c) b)) ?ps ?g0 = Inr g'"
    "dims g' sw sh" "\<forall>c. inb sw sh c \<longrightarrow> cell_val g' c = (if c \<in> set ?ps then v c else cell_val ?g0 c)"
    by blast
  have all: "c \<in> set ?ps" if "inb sw sh c" for c
    using that unfolding set_pairs by (auto simp: inb_def prod_eq_iff case_prod_beta)
  have w_eq: "(if py_len msk \<noteq> 0 then py_len (hd msk) else 0) = w"
    by (auto simp: w_def grid_width_def py_len_def)
  have "downscale_any msk t =
      (if t = 0 then Inl ZeroDivisionError
       else bind_err (fold_err (downscale_cell msk t h w) ?ps ?g0) (\<lambda>small'. Inr (small', sw, sh)))"
    by (simp only: downscale_any_def Let_def w_eq h_def sw_def sh_def)
  then have "downscale_any msk t = Inr (g', sw, sh)"
    using assms(2) g'(1) by (simp add: body)
  moreover have "\<forall>c. inb sw sh c \<longrightarrow> (cell_val g' c \<longleftrightarrow> v c)"
    using g'(3) all by simp
  ultimately show ?thesis using g'(2) unfolding v_def by blast
qed

text \<open>
  Claim C4. For a rectangular mask of width \<open>w\<close> and height \<open>h\<close> and a tile size
  \<open>t \<ge> 1\<close>, \<open>downscale_any\<close> returns without error a grid of \<open>ceil(h/t)\<close> rows of
  \<open>ceil(w/t)\<close> cells, with these two numbers as its reported size, and the coarse cell
  \<open>(sx, sy)\<close> is true iff some pixel of its block, clipped to the mask, is true.
\<close>

theorem downscale_any_spec:
  assumes "rect msk" "1 \<le> t"
  shows "\<exists>small. downscale_any msk t =
           Inr (small, \<lceil>real_of_int (grid_width msk) / real_of_int t\<rceil>,
                       \<lceil>real_of_int (py_len msk) / real_of_int t\<rceil>)
      \<and> length small = nat \<lceil>real_of_int (py_len msk) / real_of_int t\<rceil>
      \<and> (\<forall>row\<in>set small. length row = nat \<lceil>real_of_int (grid_width msk) / real_of_int t\<rceil>)
      \<and> (\<forall>sx sy. 0 \<le> sx \<and> sx < \<lceil>real_of_int (grid_width msk) / real_of_int t\<rceil>
               \<and> 0 \<le> sy \<and> sy < \<lceil>real_of_int (py_len msk) / real_of_int t\<rceil> \<longrightarrow>
           (small ! nat sy ! nat sx \<longleftrightarrow>
             (\<exists>x y. sx * t \<le> x \<and> x < min ((sx + 1) * t) (grid_width msk)
                  \<and> sy * t \<le> y \<and> y < min ((sy + 1) * t) (py_len msk)
                  \<and> msk ! nat y ! nat x)))"
proof -
  let ?sw = "\<lceil>real_of_int (grid_width msk) / real_of_int t\<rceil>"
  let ?sh = "\<lceil>real_of_int (py_len msk) / real_of_int t\<rceil>"
  from downscale_any_Inr[OF assms] obtain small where
    s: "downscale_any msk t = Inr (small, ?sw, ?sh)" "dims small ?sw ?sh"
       "\<forall>c. inb ?sw ?sh c \<longrightarrow>
        (cell_val small c \<longleftrightarrow>
          (\<exists>x y. fst c * t \<le> x \<and> x < min ((fst c + 1) * t) (grid_width msk) \<and>
                 snd c * t \<le> y \<and> y < min ((snd c + 1) * t) (py_len msk) \<and> msk ! nat y ! nat x))"
    unfolding ceil_div_code[OF assms(2)] by blast
  have "small ! nat sy ! nat sx \<longleftrightarrow>
             (\<exists>x y. sx * t \<le> x \<and> x < min ((sx + 1) * t) (grid_width msk)
                  \<and> sy * t \<le> y \<and> y < min ((sy + 1) * t) (py_len msk)
                  \<and> msk ! nat y ! nat x)"
    if "0 \<le> sx \<and> sx < ?sw \<and> 0 \<le> sy \<and> sy < ?sh" for sx sy
    using s(3)[rule_format, of "(sx, sy)"] that by (simp add: inb_def cell_val_def)
  with s(1,2) show ?thesis
    by (auto simp: dims_def list_all_iff)
qed


theorem downscale_any_spec_witness:
  "rect scenario_mask \<and> (1::int) \<le> 2 \<and>
   (\<exists>small. downscale_any scenario_mask 2 = Inr (small, 2, 2) \<and> length small = 2
       \<and> small ! 1 ! 1 \<and> \<not> small ! 0 ! 1)"
proof -
  have r: "rect scenario_mask" by code_simp
  have t: "(1::int) \<le> 2" by simp
  have w: "grid_width scenario_mask = 4" and h: "py_len scenario_mask = 4" by code_simp+
  have c: "\<lceil>real_of_int 4 / real_of_int 2\<rceil> = 2" by simp
  from downscale_any_spec[OF r t] obtain small where
    s: "downscale_any scenario_mask 2 = Inr (small, 2, 2)" "length small = 2"
       "\<forall>sx sy. 0 \<le> sx \<and> sx < 2 \<and> 0 \<le> sy \<and> sy < 2 \<longrightarrow>
           (small ! nat sy ! nat sx \<longleftrightarrow>
             (\<exists>x y. sx * 2 \<le> x \<and> x < min ((sx + 1) * 2) 4
                  \<and> sy * 2 \<le> y \<and> y < min ((sy + 1) * 2) 4
                  \<and> scenario_mask ! nat y ! nat x))"
    unfolding w h c by auto
  have "scenario_mask ! nat 3 ! nat 3" by code_simp
  then have "\<exists>x y. 1 * 2 \<le> x \<and> x < min ((1 + 1) * 2) (4::int)
                  \<and> 1 * 2 \<le> y \<and> y < min ((1 + 1) * 2) (4::int)
                  \<and> scenario_mask ! nat y ! nat x"
    by (intro exI[of _ 3]) simp
  with s(3)[rule_format, of 1 1] have a: "small ! 1 ! 1" by simp
  have "\<not> scenario_mask ! nat y ! nat x" if "2 \<le> x" "x < 4" "0 \<le> y" "y < 2" for x y :: int
  proof -
    from that have "x \<in> {2, 3}" "y \<in> {0, 1}" by auto
    then show ?thesis by (auto simp: scenario_mask_def)
  qed
  then have "\<not> (\<exists>x y. 1 * 2 \<le> x \<and> x < min ((1 + 1) * 2) (4::int)
                  \<and> 0 * 2 \<le> y \<and> y < min ((0 + 1) * 2) (4::int)
                  \<and> scenario_mask ! nat y ! nat x)"
    by auto
  with s(3)[rule_format, of 1 0] have b: "\<not> small ! 0 ! 1" by simp
  from r t s(1,2) a b show ?thesis by blast
qed

section \<open>The ComponentFinder: one breadth-first search\<close>

lemma marked_put:
  assumes "dims g sw sh" "inb sw sh c"
  shows "marked (put g c True) sw sh = insert c (marked g sw sh)"
proof -
  have "cell_val (put g c True) c' = (c' = c \<or> cell_val g c')" if "inb sw sh c'" for c'
    using cell_val_put[OF assms that, of True] by simp
  with assms(2) show ?thesis
    unfolding marked_def by blast
qed

lemma nbrs_list:
  "nbrs = [(-1, -1), (0, -1), (1, -1), (-1, 0), (1, 0), (-1, 1), (0, 1), (1, 1)]"
  by (simp add: nbrs_def)

lemma set_nbrs:
  "set nbrs = {d. fst d \<in> {-1, 0, 1} \<and> snd d \<in> {-1, 0, 1} \<and> d \<noteq> (0, 0)}"
proof (intro set_eqI iffI)
  fix d assume "d \<in> set nbrs"
  then show "d \<in> {d. fst d \<in> {-1, 0, 1} \<and> snd d \<in> {-1, 0, 1} \<and> d \<noteq> (0, 0)}"
    unfolding nbrs_list by auto
next
  fix d :: "int \<times> int"
  obtain x y where d: "d = (x, y)" by (cases d)
  assume "d \<in> {d. fst d \<in> {-1, 0, 1} \<and> snd d \<in> {-1, 0, 1} \<and> d \<noteq> (0, 0)}"
  then have "x \<in> {-1, 0, 1}" "y \<in> {-1, 0, 1}" "\<not> (x = 0 \<and> y = 0)"
    unfolding d by auto
  then show "d \<in> set nbrs"
    unfolding nbrs_list d by auto
qed

lemma adj8_shift: "adj8 a b \<longleftrightarrow> (\<exists>d\<in>set nbrs. b = shift a d)"
proof
  assume "adj8 a b"
  then have "(fst b - fst a, snd b - snd a) \<in> set nbrs"
    unfolding set_nbrs adj8_def by (auto simp: max_def split: if_splits)
  moreover have "b = shift a (fst b - fst a, snd b - snd a)"
    by (simp add: shift_def)
  ultimately show "\<exists>d\<in>set nbrs. b = shift a d" by blast
next
  assume "\<exists>d\<in>set nbrs. b = shift a d"
  then show "adj8 a b"
    unfolding set_nbrs adj8_def shift_def by (auto simp: max_def)
qed

lemma adj8_sym: "adj8 a b \<Longrightarrow> adj8 b a"
  by (simp add: adj8_def abs_minus_commute)

lemma try_nbr_wf:
  assumes "dims small sw sh" "dims vis sw sh"
  shows "try_nbr small sw sh c d (vis, q) =
     (if shift c d \<in> marked small sw sh \<and> shift c d \<notin> marked vis sw sh
      then Inr (put vis (shift c d) True, q @ [shift c d]) else Inr (vis, q))"
proof (cases "inb sw sh (shift c d)")
  case False
  then show ?thesis
    unfolding try_nbr_unfold by (simp add: shift_def marked_def)
next
  case True
  from grid_get_inb[OF assms(1) True] grid_get_inb[OF assms(2) True] grid_set_inb[OF assms(2) True]
  have "grid_get small (snd c + snd d) (fst c + fst d) = Inr (cell_val small (shift c d))"
    "grid_get vis (snd c + snd d) (fst c + fst d) = Inr (cell_val vis (shift c d))"
    "grid_set vis (snd c + snd d) (fst c + fst d) True = Inr (put vis (shift c d) True)"
    by (simp_all add: shift_def)
  with True show ?thesis
    unfolding try_nbr_unfold by (simp add: marked_def shift_def[symmetric])
qed

lemma fold_try_nbr_wf:
  assumes "dims small sw sh" "dims vis sw sh"
  shows "\<exists>vis' new. fold_err (try_nbr small sw sh c) ds (vis, q) = Inr (vis', q @ new)
      \<and> dims vis' sw sh \<and> distinct new
      \<and> set new = (marked small sw sh - marked vis sw sh) \<inter> shift c ` set ds
      \<and> marked vis' sw sh = marked vis sw sh \<union> set new"
  using assms(2)
proof (induction ds arbitrary: vis q)
  case Nil
  then show ?case by simp
next
  case (Cons d ds)
  let ?n = "shift c d"
  let ?A = "marked small sw sh"
  let ?S = "shift c ` set ds"
  show ?case
  proof (cases "?n \<in> ?A \<and> ?n \<notin> marked vis sw sh")
    case False
    then have s: "try_nbr small sw sh c d (vis, q) = Inr (vis, q)"
      by (simp add: try_nbr_wf[OF assms(1) Cons.prems])
    from Cons.IH[OF Cons.prems, of q] obtain vis' new where
      r: "fold_err (try_nbr small sw sh c) ds (vis, q) = Inr (vis', q @ new)"
         "dims vis' sw sh" "distinct new"
         "set new = (?A - marked vis sw sh) \<inter> ?S"
         "marked vis' sw sh = marked vis sw sh \<union> set new"
      by blast
    have a: "fold_err (try_nbr small sw sh c) (d # ds) (vis, q) = Inr (vis', q @ new)"
      using s r(1) by simp
    from False r(4) have "set new = (?A - marked vis sw sh) \<inter> insert ?n ?S"
      by blast
    then have c: "set new = (?A - marked vis sw sh) \<inter> shift c ` set (d # ds)"
      by simp
    from a r(2,3) c r(5) show ?thesis by blast
  next
    case True
    then have inb: "inb sw sh ?n" by (simp add: marked_def)
    let ?vis1 = "put vis ?n True"
    from True have s: "try_nbr small sw sh c d (vis, q) = Inr (?vis1, q @ [?n])"
      by (simp add: try_nbr_wf[OF assms(1) Cons.prems])
    have d1: "dims ?vis1 sw sh" using Cons.prems inb by (rule dims_put)
    have m1: "marked ?vis1 sw sh = insert ?n (marked vis sw sh)"
      using Cons.prems inb by (rule marked_put)
    from Cons.IH[OF d1, of "q @ [?n]"] obtain vis' new where
      r: "fold_err (try_nbr small sw sh c) ds (?vis1, q @ [?n]) = Inr (vis', (q @ [?n]) @ new)"
         "dims vis' sw sh" "distinct new"
         "set new = (?A - marked ?vis1 sw sh) \<inter> ?S"
         "marked vis' sw sh = marked ?vis1 sw sh \<union> set new"
      by blast
    have a: "fold_err (try_nbr small sw sh c) (d # ds) (vis, q) = Inr (vis', q @ (?n # new))"
      using s r(1) by simp
    have "?n \<notin> set new" unfolding r(4) m1 by blast
    then have b: "distinct (?n # new)" using r(3) by simp
    have "insert ?n (set new) = (?A - marked vis sw sh) \<inter> insert ?n ?S"
      unfolding r(4) m1 using True by blast
    then have c: "set (?n # new) = (?A - marked vis sw sh) \<inter> shift c ` set (d # ds)"
      by simp
    have e: "marked vis' sw sh = marked vis sw sh \<union> set (?n # new)"
      unfolding r(5) m1 by simp
    from a r(2) b c e show ?thesis by blast
  qed
qed

lemma linked_mono: "linked S xs \<Longrightarrow> S \<subseteq> T \<Longrightarrow> linked T xs"
proof (induction xs arbitrary: S T)
  case Nil
  then show ?case by simp
next
  case (Cons x xs)
  from Cons.prems(1) have h: "\<exists>a\<in>S. adj8 a x" "linked (insert x S) xs" by simp_all
  from h(1) Cons.prems(2) have "\<exists>a\<in>T. adj8 a x" by blast
  moreover from Cons.prems(2) have "insert x S \<subseteq> insert x T" by blast
  with h(2) have "linked (insert x T) xs" by (rule Cons.IH)
  ultimately show ?case by simp
qed

lemma linked_append: "linked S (xs @ ys) \<longleftrightarrow> linked S xs \<and> linked (S \<union> set xs) ys"
proof (induction xs arbitrary: S)
  case Nil
  then show ?case by simp
next
  case (Cons x xs)
  have "linked S ((x # xs) @ ys) \<longleftrightarrow> (\<exists>a\<in>S. adj8 a x) \<and> linked (insert x S) (xs @ ys)"
    by simp
  also have "\<dots> \<longleftrightarrow> (\<exists>a\<in>S. adj8 a x) \<and> linked (insert x S) xs \<and> linked (insert x S \<union> set xs) ys"
    by (simp only: Cons.IH)
  also have "insert x S \<union> set xs = S \<union> set (x # xs)" by auto
  finally show ?case by simp
qed

lemma linked_all_adjacent:
  "\<forall>n\<in>set xs. \<exists>a\<in>S. adj8 a n \<Longrightarrow> linked S xs"
proof (induction xs arbitrary: S)
  case Nil
  then show ?case by simp
next
  case (Cons x xs)
  then have "linked (insert x S) xs" by (intro Cons.IH) auto
  with Cons.prems show ?case by simp
qed

lemma linked_member:
  "linked S xs \<Longrightarrow> x \<in> set xs \<Longrightarrow> \<exists>a\<in>S \<union> set xs. adj8 a x"
proof (induction xs arbitrary: S)
  case Nil
  then show ?case by simp
next
  case (Cons y ys)
  show ?case
  proof (cases "x = y")
    case True
    with Cons.prems show ?thesis by auto
  next
    case False
    with Cons.prems have "linked (insert y S) ys" "x \<in> set ys" by auto
    from Cons.IH[OF this] show ?thesis by auto
  qed
qed

lemma bfs_spec:
  assumes "dims small sw sh" "dims vis sw sh"
    and "\<forall>a\<in>set cells. \<forall>b\<in>marked small sw sh. adj8 a b \<longrightarrow> b \<in> marked vis sw sh"
  shows "\<exists>vis' more. bfs small sw sh q vis cells = Inr (vis', cells @ q @ more)
     \<and> dims vis' sw sh \<and> distinct more
     \<and> set more \<inter> marked vis sw sh = {} \<and> set more \<subseteq> marked small sw sh
     \<and> marked vis' sw sh = marked vis sw sh \<union> set more
     \<and> (\<forall>a\<in>set (cells @ q @ more). \<forall>b\<in>marked small sw sh. adj8 a b \<longrightarrow> b \<in> marked vis' sw sh)
     \<and> linked (set (cells @ q)) more"
  using assms
proof (induction small sw sh q vis cells rule: bfs.induct)
  case (1 small sw sh vis cells)
  then show ?case by (simp add: bfs.simps)
next
  case (2 small sw sh c q vis cells)
  let ?occ = "marked small sw sh"
  let ?V = "marked vis sw sh"
  from fold_try_nbr_wf[OF "2.prems"(1,2), of c nbrs q] obtain vis1 new where
    f: "fold_err (try_nbr small sw sh c) nbrs (vis, q) = Inr (vis1, q @ new)"
       "dims vis1 sw sh" "distinct new"
       "set new = (?occ - ?V) \<inter> shift c ` set nbrs"
       "marked vis1 sw sh = ?V \<union> set new"
    by blast
  have closed1: "\<forall>a\<in>set (cells @ [c]). \<forall>b\<in>?occ. adj8 a b \<longrightarrow> b \<in> marked vis1 sw sh"
  proof (intro ballI impI)
    fix a b assume a: "a \<in> set (cells @ [c])" and b: "b \<in> ?occ" "adj8 a b"
    show "b \<in> marked vis1 sw sh"
    proof (cases "a = c")
      case True
      with b(2) have "b \<in> shift c ` set nbrs" by (auto simp: adj8_shift)
      with b(1) show ?thesis unfolding f(5) f(4) by blast
    next
      case False
      with a have "a \<in> set cells" by simp
      with "2.prems"(3) b have "b \<in> ?V" by blast
      then show ?thesis unfolding f(5) by blast
    qed
  qed
  from "2.IH"[OF f(1) refl "2.prems"(1) f(2) closed1] obtain vis' more where
    r: "bfs small sw sh (q @ new) vis1 (cells @ [c]) = Inr (vis', (cells @ [c]) @ (q @ new) @ more)"
       "dims vis' sw sh" "distinct more"
       "set more \<inter> marked vis1 sw sh = {}" "set more \<subseteq> ?occ"
       "marked vis' sw sh = marked vis1 sw sh \<union> set more"
       "\<forall>a\<in>set ((cells @ [c]) @ (q @ new) @ more). \<forall>b\<in>?occ. adj8 a b \<longrightarrow> b \<in> marked vis' sw sh"
       "linked (set ((cells @ [c]) @ (q @ new))) more"
    by blast
  have res: "bfs small sw sh (c # q) vis cells = Inr (vis', cells @ (c # q) @ (new @ more))"
    using f(1) r(1) by (simp add: bfs.simps)
  have nm: "set new \<inter> set more = {}" using r(4) unfolding f(5) by blast
  have dist: "distinct (new @ more)" using f(3) r(3) nm by simp
  have "set new \<inter> ?V = {}" unfolding f(4) by blast
  moreover have "set more \<inter> ?V = {}" using r(4) unfolding f(5) by blast
  ultimately have disj: "set (new @ more) \<inter> ?V = {}" by auto
  have "set new \<subseteq> ?occ" unfolding f(4) by blast
  with r(5) have sub: "set (new @ more) \<subseteq> ?occ" by simp
  have mk: "marked vis' sw sh = ?V \<union> set (new @ more)"
    unfolding r(6) f(5) by auto
  have cl: "\<forall>a\<in>set (cells @ (c # q) @ (new @ more)). \<forall>b\<in>?occ. adj8 a b \<longrightarrow> b \<in> marked vis' sw sh"
    using r(7) by simp
  have "\<exists>a\<in>set (cells @ c # q). adj8 a n" if "n \<in> set new" for n
  proof -
    from that have "n \<in> shift c ` set nbrs" unfolding f(4) by blast
    then have "adj8 c n" by (auto simp: adj8_shift)
    then show ?thesis by auto
  qed
  then have "linked (set (cells @ c # q)) new" by (intro linked_all_adjacent) blast
  moreover have "set (cells @ c # q) \<union> set new = set ((cells @ [c]) @ (q @ new))" by auto
  ultimately have lk: "linked (set (cells @ c # q)) (new @ more)"
    using r(8) by (simp only: linked_append)
  from res r(2) dist disj sub mk cl lk show ?case by blast
qed

section \<open>The ComponentFinder: the scan over the grid\<close>

lemma fold_err_invariant:
  assumes "I [] s0"
    and "\<And>pre x post s. xs = pre @ x # post \<Longrightarrow> I pre s \<Longrightarrow> \<exists>s'. f x s = Inr s' \<and> I (pre @ [x]) s'"
  shows "\<exists>s'. fold_err f xs s0 = Inr s' \<and> I xs s'"
proof -
  have "\<exists>s'. fold_err f rest s = Inr s' \<and> I xs s'" if "xs = pre @ rest" "I pre s" for pre rest s
    using that
  proof (induction rest arbitrary: pre s)
    case Nil
    then show ?case by simp
  next
    case (Cons x rest)
    from assms(2)[OF Cons.prems] obtain s1 where s1: "f x s = Inr s1" "I (pre @ [x]) s1" by blast
    from Cons.prems(1) have "xs = (pre @ [x]) @ rest" by simp
    from Cons.IH[OF this s1(2)] s1(1) show ?case by simp
  qed
  from this[of "[]" xs s0] assms(1) show ?thesis by simp
qed

lemma set_scan_order: "set (scan_order sw sh) = {c. inb sw sh c}"
  unfolding scan_order_def set_pairs by (auto simp: inb_def)

lemma sorted_product_rows:
  fixes xs ys :: "int list"
  assumes "sorted_wrt (<) xs" "sorted_wrt (<) ys"
  shows "sorted_wrt (\<lambda>a b. rm_key a < rm_key b) (concat (map (\<lambda>y. map (\<lambda>x. (x, y)) xs) ys))"
  using assms(2)
proof (induction ys)
  case Nil
  then show ?case by simp
next
  case (Cons y ys)
  have row: "sorted_wrt (\<lambda>a b. rm_key a < rm_key b) (map (\<lambda>x. (x, y)) xs)"
    using assms(1) by (simp add: sorted_wrt_map rm_key_def)
  have cross: "rm_key a < rm_key b"
    if "a \<in> set (map (\<lambda>x. (x, y)) xs)" "b \<in> set (concat (map (\<lambda>y. map (\<lambda>x. (x, y)) xs) ys))" for a b
  proof -
    from that(1) have "snd a = y" by auto
    moreover from that(2) have "snd b \<in> set ys" by auto
    moreover from Cons.prems have "\<forall>z\<in>set ys. y < z" by simp
    ultimately show ?thesis by (simp add: rm_key_def)
  qed
  from Cons have "sorted_wrt (\<lambda>a b. rm_key a < rm_key b) (concat (map (\<lambda>y. map (\<lambda>x. (x, y)) xs) ys))"
    by simp
  with row cross show ?case
    by (simp add: sorted_wrt_append)
qed

lemma sorted_scan_order: "sorted_wrt (\<lambda>a b. rm_key a < rm_key b) (scan_order sw sh)"
  unfolding scan_order_def py_range_def
  by (intro sorted_product_rows) (simp_all add: strict_sorted_iff)

lemma scan_cell_wf:
  assumes "dims small sw sh" "dims vis sw sh" "inb sw sh p"
  shows "scan_cell small sw sh p (vis, comps) =
     (if p \<in> marked small sw sh \<and> p \<notin> marked vis sw sh
      then bind_err (bfs small sw sh [p] (put vis p True) [])
             (\<lambda>(vis2, cells). Inr (vis2, comps @ [cells]))
      else Inr (vis, comps))"
proof -
  obtain x y where p: "p = (x, y)" by (cases p)
  from grid_get_inb[OF assms(1,3)] grid_get_inb[OF assms(2,3)] grid_set_inb[OF assms(2,3)]
  have "grid_get small y x = Inr (cell_val small p)"
    "grid_get vis y x = Inr (cell_val vis p)"
    "grid_set vis y x True = Inr (put vis p True)"
    by (simp_all add: p)
  then show ?thesis
    using assms(3) by (simp add: scan_cell_def marked_def p)
qed

lemma scan_inv_skip:
  assumes "scan_inv small sw sh pre s"
    and "p \<in> marked small sw sh \<longrightarrow> p \<in> marked (fst s) sw sh"
  shows "scan_inv small sw sh (pre @ [p]) s"
proof -
  let ?Q = "\<lambda>seen C. C \<noteq> [] \<and> chain C \<and> closed_under (marked small sw sh) (set C)
                      \<and> hd C \<in> set seen \<and> list_all (\<lambda>c. rm_key (hd C) \<le> rm_key c) C"
  from assms(1) have "list_all (?Q pre) (snd s)" by (simp add: scan_inv_def)
  then have "list_all (?Q (pre @ [p])) (snd s)"
    by (rule list.pred_mono_strong) simp
  moreover from assms have "set (pre @ [p]) \<inter> marked small sw sh \<subseteq> marked (fst s) sw sh"
    by (auto simp: scan_inv_def)
  ultimately show ?thesis
    using assms(1) by (simp add: scan_inv_def)
qed

lemma scan_cell_step:
  assumes ds: "dims small sw sh" and ord: "scan_order sw sh = pre @ p # post"
    and inv: "scan_inv small sw sh pre s"
  shows "\<exists>s'. scan_cell small sw sh p s = Inr s' \<and> scan_inv small sw sh (pre @ [p]) s'"
proof -
  obtain vis comps where s: "s = (vis, comps)" by (cases s)
  let ?occ = "marked small sw sh" and ?V = "marked vis sw sh"
  let ?Q = "\<lambda>seen C. C \<noteq> [] \<and> chain C \<and> closed_under ?occ (set C)
                      \<and> hd C \<in> set seen \<and> list_all (\<lambda>c. rm_key (hd C) \<le> rm_key c) C"
  from inv have dv: "dims vis sw sh" and V: "?V = set (concat comps)"
    and dist: "distinct (concat comps)" and sub: "set (concat comps) \<subseteq> ?occ"
    and seen: "set pre \<inter> ?occ \<subseteq> ?V"
    and comps: "list_all (?Q pre) comps"
    and srt: "sorted_wrt (\<lambda>a b. rm_key a < rm_key b) (map hd comps)"
    unfolding scan_inv_def s fst_conv snd_conv by blast+
  have "p \<in> set (scan_order sw sh)" by (simp add: ord)
  then have pin: "inb sw sh p" by (simp add: set_scan_order)
  have sorted: "sorted_wrt (\<lambda>a b. rm_key a < rm_key b) (pre @ p # post)"
    using sorted_scan_order[of sw sh] by (simp add: ord)
  show ?thesis
  proof (cases "p \<in> ?occ \<and> p \<notin> ?V")
    case False
    then have "scan_cell small sw sh p s = Inr s"
      by (simp only: s scan_cell_wf[OF ds dv pin] if_False)
    moreover have "scan_inv small sw sh (pre @ [p]) s"
      using inv False by (intro scan_inv_skip) (auto simp: s)
    ultimately show ?thesis by blast
  next
    case True
    let ?vis1 = "put vis p True"
    have d1: "dims ?vis1 sw sh" using dv pin by (rule dims_put)
    have m1: "marked ?vis1 sw sh = insert p ?V" using dv pin by (rule marked_put)
    from bfs_spec[OF ds d1, of "[]" "[p]"] obtain vis2 more where
      b: "bfs small sw sh [p] ?vis1 [] = Inr (vis2, p # more)"
         "dims vis2 sw sh" "distinct more"
         "set more \<inter> insert p ?V = {}" "set more \<subseteq> ?occ"
         "marked vis2 sw sh = insert p ?V \<union> set more"
         "\<forall>a\<in>set (p # more). \<forall>b\<in>?occ. adj8 a b \<longrightarrow> b \<in> marked vis2 sw sh"
         "linked {p} more"
      unfolding m1 by auto
    let ?C = "p # more"
    let ?s' = "(vis2, comps @ [?C])"
    have res: "scan_cell small sw sh p s = Inr ?s'"
      using True by (simp add: s scan_cell_wf[OF ds dv pin] b(1))
    have i2: "marked vis2 sw sh = set (concat (comps @ [?C]))"
      unfolding b(6) V by auto
    have "set ?C \<inter> set (concat comps) = {}"
      using b(4) True unfolding V by auto
    moreover have "distinct ?C" using b(3,4) by auto
    ultimately have i3: "distinct (concat (comps @ [?C]))"
      using dist by auto
    have i4: "set (concat (comps @ [?C])) \<subseteq> ?occ"
      using sub b(5) True by auto
    have i5: "set (pre @ [p]) \<inter> ?occ \<subseteq> marked vis2 sw sh"
      using seen unfolding b(6) by auto
    have old: "list_all (?Q (pre @ [p])) comps"
      using comps by (rule list.pred_mono_strong) simp
    have closedC: "closed_under ?occ (set ?C)"
      unfolding closed_under_def
    proof (intro ballI impI)
      fix a b' assume a: "a \<in> set ?C" and b': "b' \<in> ?occ" "adj8 a b'"
      from b(7) a b' have "b' \<in> marked vis2 sw sh" by blast
      then have "b' \<in> set (concat comps) \<or> b' \<in> set ?C"
        unfolding b(6) V by auto
      moreover have "b' \<notin> set (concat comps)"
      proof
        assume "b' \<in> set (concat comps)"
        then obtain C0 where C0: "C0 \<in> set comps" "b' \<in> set C0" by auto
        with comps have "closed_under ?occ (set C0)" by (auto simp: list_all_iff)
        moreover have "a \<in> ?occ" using a i4 by auto
        moreover have "adj8 b' a" using b'(2) by (rule adj8_sym)
        ultimately have "a \<in> set C0" using C0(2) unfolding closed_under_def by blast
        with C0(1) have "a \<in> set (concat comps)" by auto
        with a \<open>set ?C \<inter> set (concat comps) = {}\<close> show False by blast
      qed
      ultimately show "b' \<in> set ?C" by blast
    qed
    have least: "rm_key p \<le> rm_key c" if "c \<in> set ?C" for c
    proof (cases "c = p")
      case True
      then show ?thesis by simp
    next
      case False
      with that have cm: "c \<in> set more" by simp
      with b(5) have "c \<in> ?occ" by blast
      then have "inb sw sh c" by (simp add: marked_def)
      then have "c \<in> set (pre @ p # post)"
        using set_scan_order[of sw sh] by (simp add: ord)
      moreover have "c \<notin> set pre"
        using seen \<open>c \<in> ?occ\<close> cm b(4) by auto
      ultimately have "c \<in> set post" using False by auto
      with sorted have "rm_key p < rm_key c" by (simp add: sorted_wrt_append)
      then show ?thesis by simp
    qed
    have newQ: "?Q (pre @ [p]) ?C"
      using closedC least b(8) by (simp add: chain_def list_all_iff)
    have i6: "list_all (?Q (pre @ [p])) (comps @ [?C])"
      using old newQ by simp
    have "rm_key (hd C0) < rm_key p" if "C0 \<in> set comps" for C0
    proof -
      from comps that have "hd C0 \<in> set pre" by (auto simp: list_all_iff)
      with sorted show ?thesis by (simp add: sorted_wrt_append)
    qed
    then have i7: "sorted_wrt (\<lambda>a b. rm_key a < rm_key b) (map hd (comps @ [?C]))"
      using srt by (simp add: sorted_wrt_append)
    have "scan_inv small sw sh (pre @ [p]) ?s'"
      unfolding scan_inv_def fst_conv snd_conv
      using b(2) i2 i3 i4 i5 i6 i7 by blast
    with res show ?thesis by blast
  qed
qed

lemma marked_replicate: "marked (replicate (nat sh) (replicate (nat sw) False)) sw sh = {}"
proof -
  have "\<not> cell_val (replicate (nat sh) (replicate (nat sw) False)) c" if "inb sw sh c" for c
    using that by (simp add: cell_val_def inb_def)
  then show ?thesis by (auto simp: marked_def)
qed

lemma flood_components_8_unfold:
  "flood_components_8 small =
     bind_err (fold_err (scan_cell small (grid_width small) (py_len small))
                 (scan_order (grid_width small) (py_len small))
                 (replicate (nat (py_len small)) (replicate (nat (grid_width small)) False), []))
       (\<lambda>(vis', comps). Inr comps)"
proof -
  have "(if py_len small \<noteq> 0 then py_len (hd small) else 0) = grid_width small"
    by (auto simp: grid_width_def py_len_def)
  then show ?thesis
    by (simp only: flood_components_8_def Let_def scan_order_def)
qed

lemma flood_scan_inv:
  assumes "rect small"
  shows "\<exists>vis comps. flood_components_8 small = Inr comps
     \<and> scan_inv small (grid_width small) (py_len small)
           (scan_order (grid_width small) (py_len small)) (vis, comps)"
proof -
  let ?sw = "grid_width small" and ?sh = "py_len small"
  let ?vis0 = "replicate (nat ?sh) (replicate (nat ?sw) False)"
  from assms have ds: "dims small ?sw ?sh" by (simp add: rect_def)
  then have nn: "0 \<le> ?sw" "0 \<le> ?sh" by (simp_all add: dims_def)
  have init: "scan_inv small ?sw ?sh [] (?vis0, [])"
    using dims_replicate[OF nn, of False]
    by (simp add: scan_inv_def marked_replicate)
  have "\<exists>s'. fold_err (scan_cell small ?sw ?sh) (scan_order ?sw ?sh) (?vis0, []) = Inr s'
          \<and> scan_inv small ?sw ?sh (scan_order ?sw ?sh) s'"
    using init
  proof (rule fold_err_invariant)
    fix pre x post s
    assume "scan_order ?sw ?sh = pre @ x # post" "scan_inv small ?sw ?sh pre s"
    with ds show "\<exists>s'. scan_cell small ?sw ?sh x s = Inr s' \<and> scan_inv small ?sw ?sh (pre @ [x]) s'"
      by (rule scan_cell_step)
  qed
  then obtain s' where s': "fold_err (scan_cell small ?sw ?sh) (scan_order ?sw ?sh) (?vis0, []) = Inr s'"
    "scan_inv small ?sw ?sh (scan_order ?sw ?sh) s'"
    by blast
  obtain vis comps where vc: "s' = (vis, comps)" by (cases s')
  have "flood_components_8 small = Inr comps"
    unfolding flood_components_8_unfold s'(1) vc by simp
  with s'(2) vc show ?thesis by blast
qed

lemma flood_facts:
  assumes "rect small"
  shows "\<exists>comps. flood_components_8 small = Inr comps
     \<and> distinct (concat comps) \<and> set (concat comps) = occupied small
     \<and> (\<forall>C\<in>set comps. C \<noteq> [] \<and> chain C \<and> closed_under (occupied small) (set C)
                        \<and> (\<forall>c\<in>set C. rm_key (hd C) \<le> rm_key c))
     \<and> sorted_wrt (\<lambda>a b. rm_key a < rm_key b) (map hd comps)"
proof -
  let ?sw = "grid_width small" and ?sh = "py_len small"
  from flood_scan_inv[OF assms] obtain vis comps where
    r: "flood_components_8 small = Inr comps"
    and inv: "scan_inv small ?sw ?sh (scan_order ?sw ?sh) (vis, comps)"
    by blast
  from inv have V: "marked vis ?sw ?sh = set (concat comps)"
    and dist: "distinct (concat comps)" and sub: "set (concat comps) \<subseteq> occupied small"
    and seen: "set (scan_order ?sw ?sh) \<inter> occupied small \<subseteq> marked vis ?sw ?sh"
    and comps: "list_all (\<lambda>C. C \<noteq> [] \<and> chain C \<and> closed_under (occupied small) (set C)
                      \<and> hd C \<in> set (scan_order ?sw ?sh)
                      \<and> list_all (\<lambda>c. rm_key (hd C) \<le> rm_key c) C) comps"
    and srt: "sorted_wrt (\<lambda>a b. rm_key a < rm_key b) (map hd comps)"
    unfolding scan_inv_def fst_conv snd_conv occupied_def by blast+
  have "occupied small \<subseteq> set (scan_order ?sw ?sh)"
    by (auto simp: occupied_def marked_def set_scan_order)
  with seen have "occupied small \<subseteq> set (concat comps)" unfolding V by blast
  with sub have eq: "set (concat comps) = occupied small" by blast
  from comps have "\<forall>C\<in>set comps. C \<noteq> [] \<and> chain C \<and> closed_under (occupied small) (set C)
                        \<and> (\<forall>c\<in>set C. rm_key (hd C) \<le> rm_key c)"
    by (simp add: list_all_iff)
  with r dist eq srt show ?thesis by blast
qed

section \<open>What the ComponentFinder returns\<close>

lemma distinct_concat_index:
  assumes "distinct (concat xss)" "i < length xss" "j < length xss"
    and "x \<in> set (xss ! i)" "x \<in> set (xss ! j)"
  shows "i = j"
  using assms
proof (induction xss arbitrary: i j)
  case Nil
  then show ?case by simp
next
  case (Cons xs xss)
  from Cons.prems(1) have d: "distinct (concat xss)" "set xs \<inter> set (concat xss) = {}" by auto
  show ?case
  proof (cases i)
    case i0: 0
    show ?thesis
    proof (cases j)
      case 0
      with i0 show ?thesis by simp
    next
      case (Suc j')
      with Cons.prems(3,5) have "x \<in> set (concat xss)" by auto
      with i0 Cons.prems(4) d(2) show ?thesis by auto
    qed
  next
    case (Suc i')
    show ?thesis
    proof (cases j)
      case 0
      from Suc Cons.prems(2,4) have "x \<in> set (concat xss)" by auto
      with 0 Cons.prems(5) d(2) show ?thesis by auto
    next
      case j: (Suc j')
      from Cons.IH[OF d(1), of i' j'] Suc j Cons.prems show ?thesis by simp
    qed
  qed
qed

lemma rm_less_key: "rm_less a b \<longleftrightarrow> rm_key a < rm_key b"
  by (auto simp: rm_less_def rm_key_def)

lemma seed_hd:
  assumes "C \<noteq> []" "\<forall>c\<in>set C. rm_key (hd C) \<le> rm_key c"
  shows "seed C = hd C"
proof -
  have "Min (set (map rm_key C)) = rm_key (hd C)"
    using assms by (intro Min_eqI) auto
  then show ?thesis by (simp add: seed_def rm_key_def)
qed

lemma chain_isolated:
  assumes "chain C" "c \<in> set C" "\<forall>b\<in>set C. \<not> adj8 c b"
  shows "C = [c]"
proof (cases C)
  case Nil
  with assms(2) show ?thesis by simp
next
  case (Cons h rest)
  with assms(1) have lk: "linked {h} rest" by (simp add: chain_def)
  show ?thesis
  proof (cases "c = h")
    case True
    show ?thesis
    proof (cases rest)
      case Nil
      with Cons True show ?thesis by simp
    next
      case r: (Cons r rest')
      with lk have "adj8 h r" by simp
      with assms(3) True Cons r show ?thesis by auto
    qed
  next
    case False
    with assms(2) Cons have "c \<in> set rest" by simp
    from linked_member[OF lk this] obtain a where "a \<in> {h} \<union> set rest" "adj8 a c" by blast
    then have "a \<in> set C" "adj8 c a" using Cons by (auto intro: adj8_sym)
    with assms(3) show ?thesis by blast
  qed
qed

text \<open>
  Claim C2. For a rectangular coarse grid, \<open>flood_components_8\<close> returns a list of
  components that partitions the occupied cells: every occupied cell is in exactly one
  component of the list, the union of the components is the set of occupied cells, no
  component holds an unoccupied cell, and no component lists a cell twice.
\<close>

theorem flood_components_8_partition:
  assumes "rect small"
  shows "\<exists>comps. flood_components_8 small = Inr comps
     \<and> (\<forall>c\<in>occupied small. \<exists>!i. i < length comps \<and> c \<in> set (comps ! i))
     \<and> \<Union> (set ` set comps) = occupied small
     \<and> (\<forall>C\<in>set comps. set C \<subseteq> occupied small)
     \<and> (\<forall>C\<in>set comps. distinct C)"
proof -
  from flood_facts[OF assms] obtain comps where
    r: "flood_components_8 small = Inr comps"
    and dist: "distinct (concat comps)" and eq: "set (concat comps) = occupied small"
    by blast
  have one: "\<exists>!i. i < length comps \<and> c \<in> set (comps ! i)" if "c \<in> occupied small" for c
  proof -
    from that eq have "c \<in> set (concat comps)" by simp
    then obtain C where "C \<in> set comps" "c \<in> set C" by auto
    then obtain i where i: "i < length comps" "c \<in> set (comps ! i)"
      by (auto simp: in_set_conv_nth)
    show ?thesis
    proof (rule ex1I[of _ i])
      show "i < length comps \<and> c \<in> set (comps ! i)" using i by simp
    next
      fix j assume "j < length comps \<and> c \<in> set (comps ! j)"
      then show "j = i"
        using distinct_concat_index[OF dist, of j i c] i by simp
    qed
  qed
  have un: "\<Union> (set ` set comps) = occupied small" using eq by simp
  then have sub: "\<forall>C\<in>set comps. set C \<subseteq> occupied small" by blast
  have dc: "\<forall>C\<in>set comps. distinct C" using dist by (simp add: distinct_concat_iff)
  show ?thesis
  proof (intro exI[of _ comps] conjI ballI)
    show "flood_components_8 small = Inr comps" by (rule r)
    show "\<exists>!i. i < length comps \<and> c \<in> set (comps ! i)" if "c \<in> occupied small" for c
      using that by (rule one)
    show "\<Union> (set ` set comps) = occupied small" by (rule un)
    show "set C \<subseteq> occupied small" if "C \<in> set comps" for C using sub that by blast
    show "distinct C" if "C \<in> set comps" for C using dc that by blast
  qed
qed

theorem flood_components_8_partition_witness:
  "rect three_grid
   \<and> flood_components_8 three_grid = Inr [[(1, 0), (0, 1)], [(3, 0)], [(2, 3), (3, 3)]]
   \<and> occupied three_grid = {(1, 0), (0, 1), (3, 0), (2, 3), (3, 3)}"
proof -
  have r: "rect three_grid" by code_simp
  have e: "flood_components_8 three_grid = Inr [[(1, 0), (0, 1)], [(3, 0)], [(2, 3), (3, 3)]]"
    by code_simp
  from flood_components_8_partition[OF r] obtain comps where
    c: "flood_components_8 three_grid = Inr comps" "\<Union> (set ` set comps) = occupied three_grid"
    by blast
  from c(1) e have "comps = [[(1, 0), (0, 1)], [(3, 0)], [(2, 3), (3, 3)]]" by simp
  with c(2) have "occupied three_grid = \<Union> (set ` set [[(1, 0), (0, 1)], [(3, 0)], [(2, 3), (3, 3)]])"
    by simp
  also have "\<dots> = {(1, 0), (0, 1), (3, 0), (2, 3), (3, 3)}"
    by auto
  finally have "occupied three_grid = {(1, 0), (0, 1), (3, 0), (2, 3), (3, 3)}" .
  with r e show ?thesis by blast
qed

text \<open>
  Claim C6. For a rectangular coarse grid, the components are appended in the row-major
  order (\<open>y\<close> ascending, then \<open>x\<close> ascending) of their seed cells, the seed of a component
  being its top-most, then left-most cell: each component starts with its seed, every other
  cell of it comes later in row-major order, and the seeds of the returned list increase
  strictly. An occupied cell with no occupied neighbour is returned as a component of its own.
\<close>

theorem flood_components_8_discovery_order:
  assumes "rect small"
  shows "\<exists>comps. flood_components_8 small = Inr comps
     \<and> (\<forall>C\<in>set comps. C \<noteq> [] \<and> hd C = seed C \<and> (\<forall>c\<in>set C. c = seed C \<or> rm_less (seed C) c))
     \<and> sorted_wrt rm_less (map seed comps)
     \<and> (\<forall>c\<in>occupied small. (\<forall>b\<in>occupied small. \<not> adj8 c b) \<longrightarrow> [c] \<in> set comps)"
proof -
  from flood_facts[OF assms] obtain comps where
    r: "flood_components_8 small = Inr comps"
    and eq: "set (concat comps) = occupied small"
    and cs: "\<forall>C\<in>set comps. C \<noteq> [] \<and> chain C \<and> closed_under (occupied small) (set C)
                        \<and> (\<forall>c\<in>set C. rm_key (hd C) \<le> rm_key c)"
    and srt: "sorted_wrt (\<lambda>a b. rm_key a < rm_key b) (map hd comps)"
    by blast
  have sd: "seed C = hd C" if "C \<in> set comps" for C
    using cs that by (intro seed_hd) auto
  have a: "C \<noteq> [] \<and> hd C = seed C \<and> (\<forall>c\<in>set C. c = seed C \<or> rm_less (seed C) c)"
    if C: "C \<in> set comps" for C
  proof -
    have "c = hd C \<or> rm_less (hd C) c" if "c \<in> set C" for c
    proof -
      from cs C that have "rm_key (hd C) \<le> rm_key c" by blast
      then have "rm_key (hd C) = rm_key c \<or> rm_key (hd C) < rm_key c" by auto
      then show ?thesis by (auto simp: rm_less_key rm_key_def prod_eq_iff)
    qed
    with cs C sd[OF C] show ?thesis by auto
  qed
  have ms: "map seed comps = map hd comps" using sd by simp
  have "sorted_wrt rm_less (map hd comps)"
    using srt by (simp add: rm_less_key[abs_def])
  then have b: "sorted_wrt rm_less (map seed comps)" by (simp only: ms)
  have c: "[c] \<in> set comps" if "c \<in> occupied small" "\<forall>b\<in>occupied small. \<not> adj8 c b" for c
  proof -
    from that(1) eq obtain C where C: "C \<in> set comps" "c \<in> set C" by auto
    with eq have "set C \<subseteq> occupied small" by auto
    with that(2) have "\<forall>b\<in>set C. \<not> adj8 c b" by blast
    with cs C have "C = [c]" by (intro chain_isolated) auto
    with C(1) show ?thesis by simp
  qed
  from r a b c show ?thesis by blast
qed

theorem flood_components_8_discovery_order_witness:
  "rect three_grid
   \<and> flood_components_8 three_grid = Inr [[(1, 0), (0, 1)], [(3, 0)], [(2, 3), (3, 3)]]
   \<and> map seed [[(1, 0), (0, 1)], [(3, 0)], [(2, 3), (3, 3)]] = [(1, 0), (3, 0), (2, 3)]
   \<and> sorted_wrt rm_less [(1, 0), (3, 0), (2, 3)]"
proof -
  have r: "rect three_grid" by code_simp
  have e: "flood_components_8 three_grid = Inr [[(1, 0), (0, 1)], [(3, 0)], [(2, 3), (3, 3)]]"
    by code_simp
  from flood_components_8_discovery_order[OF r] obtain comps where
    c: "flood_components_8 three_grid = Inr comps" "\<forall>C\<in>set comps. hd C = seed C"
       "sorted_wrt rm_less (map seed comps)"
    by blast
  from c(1) e have cs: "comps = [[(1, 0), (0, 1)], [(3, 0)], [(2, 3), (3, 3)]]" by simp
  from c(2) have m: "map seed [[(1, 0), (0, 1)], [(3, 0)], [(2, 3), (3, 3)]] = [(1, 0), (3, 0), (2, 3)]"
    unfolding cs by simp
  from c(3) have "sorted_wrt rm_less [(1, 0), (3, 0), (2, 3)]"
    unfolding cs m .
  with r e m show ?thesis by blast
qed

section \<open>The sort laws\<close>

lemma py_min_nonempty: "xs \<noteq> [] \<Longrightarrow> py_min xs = Inr (Min (set xs))"
  using Min.set_eq_fold[symmetric, where 'a = int]
  by (cases xs) (simp_all add: py_min_def)

lemma py_max_nonempty: "xs \<noteq> [] \<Longrightarrow> py_max xs = Inr (Max (set xs))"
  using Max.set_eq_fold[symmetric, where 'a = int]
  by (cases xs) (simp_all add: py_max_def)

lemma bbox_key_nonempty: "cells \<noteq> [] \<Longrightarrow> bbox_key cells = Inr (bbox cells)"
  by (simp add: bbox_key_def bbox_def py_min_nonempty py_max_nonempty)

lemma bbox_key_empty: "bbox_key [] = Inl ValueError"
  by (simp add: bbox_key_def py_min_def)

lemma map_err_total:
  "\<forall>x\<in>set xs. f x = Inr (g x) \<Longrightarrow> map_err f xs = Inr (map g xs)"
  by (induction xs) simp_all

lemma insort_key_decorate:
  "insort_key fst (k x, x) (map (\<lambda>y. (k y, y)) ys) = map (\<lambda>y. (k y, y)) (insort_key k x ys)"
  by (induction ys) simp_all

lemma sort_key_decorate:
  "sort_key fst (map (\<lambda>y. (k y, y)) xs) = map (\<lambda>y. (k y, y)) (sort_key k xs)"
  by (induction xs) (simp_all add: insort_key_decorate)

lemma py_sorted_total:
  assumes "\<forall>x\<in>set xs. key x = Inr (k x)"
  shows "py_sorted key xs = Inr (sort_key k xs)"
proof -
  have "zip (map k xs) xs = map (\<lambda>y. (k y, y)) xs"
    by (induction xs) simp_all
  then have "map snd (sort_key fst (zip (map k xs) xs)) = sort_key k xs"
    by (simp add: sort_key_decorate comp_def)
  with map_err_total[OF assms] show ?thesis
    by (simp add: py_sorted_def)
qed

lemma lex4_le_iff: "lex4_le a b \<longleftrightarrow> a \<le> b"
  by (cases a, cases b) (auto simp: lex4_le_def)

lemma sort_topleft:
  assumes "\<forall>C\<in>set comps. C \<noteq> []"
  shows "sort_components comps ''topleft'' = Inr (sort_key bbox comps)"
proof -
  from assms have "\<forall>C\<in>set comps. bbox_key C = Inr (bbox C)"
    by (simp add: bbox_key_nonempty)
  then show ?thesis
    by (simp add: sort_components_def py_sorted_total)
qed

lemma sort_size: "sort_components comps ''size'' = Inr (sort_key size_key comps)"
  by (simp add: sort_components_def py_sorted_total)

lemma sort_none: "sort_components comps ''none'' = Inr comps"
  by (simp add: sort_components_def)

text \<open>
  Claim C5. For a list of non-empty components, \<open>sort_components\<close> returns a permutation
  of it such that: under \<open>topleft\<close> the bounding box tuples \<open>(min_y, min_x, max_y, max_x)\<close>
  are non-decreasing lexicographically; under \<open>size\<close> the cell counts are non-increasing
  and the components of any one cell count keep their order of the input; under \<open>none\<close>
  the result is the input.
\<close>

theorem sort_components_laws:
  assumes "\<forall>C\<in>set comps. C \<noteq> []"
  shows "(\<exists>out. sort_components comps ''topleft'' = Inr out \<and> mset out = mset comps
            \<and> sorted_wrt lex4_le (map bbox out))
       \<and> (\<exists>out. sort_components comps ''size'' = Inr out \<and> mset out = mset comps
            \<and> sorted_wrt (\<lambda>a b. length b \<le> length a) out
            \<and> (\<forall>n. filter (\<lambda>C. length C = n) out = filter (\<lambda>C. length C = n) comps))
       \<and> sort_components comps ''none'' = Inr comps"
proof (intro conjI)
  have "sorted (map bbox (sort_key bbox comps))" by (rule sorted_sort_key)
  then have "sorted_wrt lex4_le (map bbox (sort_key bbox comps))"
    by (simp add: lex4_le_iff[abs_def])
  with sort_topleft[OF assms]
  show "\<exists>out. sort_components comps ''topleft'' = Inr out \<and> mset out = mset comps
            \<and> sorted_wrt lex4_le (map bbox out)"
    by simp
next
  let ?out = "sort_key size_key comps"
  have "sorted (map size_key ?out)" by (rule sorted_sort_key)
  then have a: "sorted_wrt (\<lambda>a b. length b \<le> length a) ?out"
    by (simp add: sorted_wrt_map size_key_def py_len_def)
  have b: "filter (\<lambda>C. length C = n) ?out = filter (\<lambda>C. length C = n) comps" for n
  proof -
    have "(\<lambda>C::(int \<times> int) list. length C = n) = (\<lambda>C. size_key C = - int n)"
      by (auto simp: size_key_def py_len_def)
    then show ?thesis by (simp only: sort_key_stable)
  qed
  from a b sort_size[of comps]
  show "\<exists>out. sort_components comps ''size'' = Inr out \<and> mset out = mset comps
            \<and> sorted_wrt (\<lambda>a b. length b \<le> length a) out
            \<and> (\<forall>n. filter (\<lambda>C. length C = n) out = filter (\<lambda>C. length C = n) comps)"
    by simp
next
  show "sort_components comps ''none'' = Inr comps" by (rule sort_none)
qed

theorem sort_components_laws_witness:
  "sort_components [[(2, 3), (3, 3)], [(3, 0)], [(1, 0), (0, 1)], [(5, 0)]] ''topleft''
     = Inr [[(1, 0), (0, 1)], [(3, 0)], [(5, 0)], [(2, 3), (3, 3)]]
   \<and> sort_components [[(2, 3), (3, 3)], [(3, 0)], [(1, 0), (0, 1)], [(5, 0)]] ''size''
     = Inr [[(2, 3), (3, 3)], [(1, 0), (0, 1)], [(3, 0)], [(5, 0)]]
   \<and> sorted_wrt lex4_le (map bbox [[(1, 0), (0, 1)], [(3, 0)], [(5, 0)], [(2, 3), (3, 3)]])
   \<and> sorted_wrt (\<lambda>a b. length b \<le> length a) [[(2, 3), (3, 3)], [(1, 0), (0, 1)], [(3, 0)], [(5, 0)::int \<times> int]]"
proof -
  let ?comps = "[[(2, 3), (3, 3)], [(3, 0)], [(1, 0), (0, 1)], [(5, 0)::int \<times> int]]"
  have ne: "\<forall>C\<in>set ?comps. C \<noteq> []" by simp
  have t: "sort_components ?comps ''topleft'' = Inr [[(1, 0), (0, 1)], [(3, 0)], [(5, 0)], [(2, 3), (3, 3)]]"
    by code_simp
  have s: "sort_components ?comps ''size'' = Inr [[(2, 3), (3, 3)], [(1, 0), (0, 1)], [(3, 0)], [(5, 0)]]"
    by code_simp
  from sort_components_laws[OF ne] obtain o1 o2 where
    o: "sort_components ?comps ''topleft'' = Inr o1" "sorted_wrt lex4_le (map bbox o1)"
       "sort_components ?comps ''size'' = Inr o2" "sorted_wrt (\<lambda>a b. length b \<le> length a) o2"
    by blast
  from o(1) t have o1: "o1 = [[(1, 0), (0, 1)], [(3, 0)], [(5, 0)], [(2, 3), (3, 3)]]" by simp
  from o(3) s have o2: "o2 = [[(2, 3), (3, 3)], [(1, 0), (0, 1)], [(3, 0)], [(5, 0)]]" by simp
  from t s o(2)[unfolded o1] o(4)[unfolded o2] show ?thesis by blast
qed

section \<open>The background colour and the foreground mask\<close>

lemma counter_snoc: "counter (xs @ [x]) = counter_add (counter xs) x"
  by (simp add: counter_def)

lemma keys_counter_add:
  "map fst (counter_add c k) = (if k \<in> set (map fst c) then map fst c else map fst c @ [k])"
  by (induction c k rule: counter_add.induct) auto

lemma map_of_counter_add:
  "map_of (counter_add c k) k' =
     (if k' = k then Some (case map_of c k of None \<Rightarrow> 1 | Some n \<Rightarrow> Suc n) else map_of c k')"
  by (induction c k rule: counter_add.induct) auto

lemma first_pos_less: "a \<in> set xs \<Longrightarrow> first_pos xs a < length xs"
  unfolding first_pos_def by (induction xs) auto

lemma first_pos_snoc_old: "a \<in> set xs \<Longrightarrow> first_pos (xs @ [x]) a = first_pos xs a"
  unfolding first_pos_def by (induction xs) auto

lemma first_pos_snoc_new: "a \<notin> set xs \<Longrightarrow> first_pos (xs @ [a]) a = length xs"
  unfolding first_pos_def by (induction xs) auto

lemma counter_spec:
  "set (map fst (counter xs)) = set xs
   \<and> distinct (map fst (counter xs))
   \<and> (\<forall>k. map_of (counter xs) k = (if k \<in> set xs then Some (count_list xs k) else None))
   \<and> sorted_wrt (\<lambda>a b. first_pos xs a < first_pos xs b) (map fst (counter xs))"
proof (induction xs rule: rev_induct)
  case Nil
  then show ?case by (simp add: counter_def)
next
  case (snoc x xs)
  let ?c = "counter xs"
  from snoc have keys: "set (map fst ?c) = set xs" and dist: "distinct (map fst ?c)"
    and look: "\<And>k. map_of ?c k = (if k \<in> set xs then Some (count_list xs k) else None)"
    and srt: "sorted_wrt (\<lambda>a b. first_pos xs a < first_pos xs b) (map fst ?c)"
    by blast+
  have k': "map fst (counter (xs @ [x])) = (if x \<in> set xs then map fst ?c else map fst ?c @ [x])"
    unfolding counter_snoc keys_counter_add keys by simp
  have a: "set (map fst (counter (xs @ [x]))) = set (xs @ [x])"
    unfolding k' using keys by auto
  have b: "distinct (map fst (counter (xs @ [x])))"
    unfolding k' using dist keys by auto
  have c: "map_of (counter (xs @ [x])) k =
      (if k \<in> set (xs @ [x]) then Some (count_list (xs @ [x]) k) else None)" for k
    unfolding counter_snoc map_of_counter_add look by (auto simp: count_list_0_iff)
  have old: "sorted_wrt (\<lambda>a b. first_pos (xs @ [x]) a < first_pos (xs @ [x]) b) (map fst ?c)"
  proof (rule sorted_wrt_mono_rel[OF _ srt])
    fix a b assume "a \<in> set (map fst ?c)" "b \<in> set (map fst ?c)" "first_pos xs a < first_pos xs b"
    then show "first_pos (xs @ [x]) a < first_pos (xs @ [x]) b"
      unfolding keys by (simp add: first_pos_snoc_old)
  qed
  have d: "sorted_wrt (\<lambda>a b. first_pos (xs @ [x]) a < first_pos (xs @ [x]) b)
             (map fst (counter (xs @ [x])))"
  proof (cases "x \<in> set xs")
    case True
    with old show ?thesis unfolding k' by simp
  next
    case False
    have "first_pos (xs @ [x]) a < first_pos (xs @ [x]) x" if "a \<in> set (map fst ?c)" for a
      using that False unfolding keys
      by (simp add: first_pos_snoc_old first_pos_snoc_new first_pos_less)
    with old False show ?thesis unfolding k' by (simp add: sorted_wrt_append)
  qed
  from a b c d show ?case by blast
qed

lemma max_first_spec:
  assumes "\<forall>kv\<in>set pre. snd kv < snd best" "\<forall>kv\<in>set mid. snd kv \<le> snd best"
  shows "\<exists>pre' post'. pre @ best # mid @ kvs = pre' @ max_first best kvs # post'
      \<and> (\<forall>kv\<in>set pre'. snd kv < snd (max_first best kvs))
      \<and> (\<forall>kv\<in>set post'. snd kv \<le> snd (max_first best kvs))"
  using assms
proof (induction kvs arbitrary: pre best mid)
  case Nil
  then show ?case by auto
next
  case (Cons kv kvs)
  show ?case
  proof (cases "snd best < snd kv")
    case True
    have "\<forall>e\<in>set (pre @ best # mid). snd e < snd kv"
      using Cons.prems True by fastforce
    from Cons.IH[of "pre @ best # mid" kv "[]", OF this] True
    show ?thesis by simp
  next
    case False
    have "\<forall>e\<in>set (mid @ [kv]). snd e \<le> snd best"
      using Cons.prems(2) False by auto
    from Cons.IH[of pre best "mid @ [kv]", OF Cons.prems(1) this] False
    show ?thesis by simp
  qed
qed

lemma most_common_rgb_empty: "samples img = [] \<Longrightarrow> most_common_rgb img = (0, 0, 0)"
  by (simp add: most_common_rgb_def counter_def most_common_1_def)

lemma most_common_rgb_spec:
  assumes "samples img \<noteq> []"
  defines "bg \<equiv> most_common_rgb img"
  shows "bg \<in> set (samples img)"
    and "count_list (samples img) c \<le> count_list (samples img) bg"
    and "c \<in> set (samples img) \<Longrightarrow> count_list (samples img) c = count_list (samples img) bg
           \<Longrightarrow> first_pos (samples img) bg \<le> first_pos (samples img) c"
proof -
  let ?xs = "samples img"
  let ?c = "counter ?xs"
  from counter_spec[of ?xs] have keys: "set (map fst ?c) = set ?xs"
    and dist: "distinct (map fst ?c)"
    and look: "\<And>k. map_of ?c k = (if k \<in> set ?xs then Some (count_list ?xs k) else None)"
    and srt: "sorted_wrt (\<lambda>a b. first_pos ?xs a < first_pos ?xs b) (map fst ?c)"
    by blast+
  from keys assms(1) have "?c \<noteq> []" by auto
  then obtain kv kvs where c: "?c = kv # kvs" by (cases ?c) auto
  let ?r = "max_first kv kvs"
  have bg: "bg = fst ?r"
    by (simp add: bg_def most_common_rgb_def c most_common_1_def)
  from max_first_spec[of "[]" kv "[]" kvs] obtain pre post where
    sp: "?c = pre @ ?r # post" "\<forall>e\<in>set pre. snd e < snd ?r" "\<forall>e\<in>set post. snd e \<le> snd ?r"
    unfolding c by auto
  have entry: "snd e = count_list ?xs (fst e)" "fst e \<in> set ?xs" if "e \<in> set ?c" for e
  proof -
    from that dist have "map_of ?c (fst e) = Some (snd e)" by simp
    then show "snd e = count_list ?xs (fst e)" "fst e \<in> set ?xs"
      unfolding look by (simp_all split: if_splits)
  qed
  have rin: "?r \<in> set ?c" unfolding sp(1) by simp
  from entry[OF rin] have bgin: "bg \<in> set ?xs" and cnt: "snd ?r = count_list ?xs bg"
    unfolding bg by simp_all
  show "bg \<in> set ?xs" by (rule bgin)
  have has: "(k, count_list ?xs k) \<in> set ?c" if "k \<in> set ?xs" for k
    using look[of k] that by (simp add: map_of_SomeD)
  show "count_list ?xs c \<le> count_list ?xs bg"
  proof (cases "c \<in> set ?xs")
    case False
    then show ?thesis by (simp add: count_list_0_iff)
  next
    case True
    from has[OF this] have "(c, count_list ?xs c) \<in> set (pre @ ?r # post)" unfolding sp(1)[symmetric] .
    then consider "(c, count_list ?xs c) \<in> set pre" | "(c, count_list ?xs c) = ?r"
      | "(c, count_list ?xs c) \<in> set post" by auto
    then have "snd (c, count_list ?xs c) \<le> snd ?r"
    proof cases
      case 1
      with sp(2) show ?thesis by (intro less_imp_le) blast
    next
      case 2
      then show ?thesis by simp
    next
      case 3
      with sp(3) show ?thesis by blast
    qed
    then show ?thesis unfolding cnt by simp
  qed
  show "first_pos ?xs bg \<le> first_pos ?xs c"
    if "c \<in> set ?xs" "count_list ?xs c = count_list ?xs bg"
  proof (cases "c = bg")
    case True
    then show ?thesis by simp
  next
    case False
    from has[OF that(1)] have "(c, count_list ?xs c) \<in> set (pre @ ?r # post)"
      unfolding sp(1)[symmetric] .
    moreover have "(c, count_list ?xs c) \<notin> set pre"
    proof
      assume "(c, count_list ?xs c) \<in> set pre"
      with sp(2) have "snd (c, count_list ?xs c) < snd ?r" by blast
      with that(2) cnt show False by simp
    qed
    moreover have "(c, count_list ?xs c) \<noteq> ?r"
    proof
      assume "(c, count_list ?xs c) = ?r"
      then have "fst (c, count_list ?xs c) = fst ?r" by (rule arg_cong)
      with False bg show False by simp
    qed
    ultimately have "(c, count_list ?xs c) \<in> set post" by auto
    then have "c \<in> set (map fst post)" by force
    moreover have "sorted_wrt (\<lambda>a b. first_pos ?xs a < first_pos ?xs b)
                     (map fst pre @ bg # map fst post)"
      using srt unfolding sp(1) bg by simp
    ultimately have "first_pos ?xs bg < first_pos ?xs c"
      by (auto simp: sorted_wrt_append)
    then show ?thesis by simp
  qed
qed

lemma py_range3_step1: "py_range3 0 n 1 = py_range 0 n"
proof -
  have "map (\<lambda>i. i) [0..n - 1] = [0..n - 1]" by simp
  then show ?thesis by (simp add: py_range3_def py_range_def)
qed

lemma py_range3_step2_nat:
  "py_range3 0 (int n) 2 = filter even (py_range 0 (int n))"
proof (induction n)
  case 0
  then show ?case by (simp add: py_range3_def py_range_def)
next
  case (Suc n)
  have split: "[0..int (Suc n) - 1] = [0..int n - 1] @ [int n]"
    using upto_rec2[of 0 "int n"] by simp
  show ?case
  proof (cases "even n")
    case True
    then obtain k where k: "n = 2 * k" by (auto elim: evenE)
    have e1: "(int (Suc n) - 0 + 2 - 1) div 2 - 1 = int k" unfolding k by simp
    have e0: "(int n - 0 + 2 - 1) div 2 - 1 = int k - 1" unfolding k by simp
    have "[0..int k] = [0..int k - 1] @ [int k]"
      using upto_rec2[of 0 "int k"] by simp
    then have "py_range3 0 (int (Suc n)) 2 = py_range3 0 (int n) 2 @ [int n]"
      unfolding py_range3_def e1 e0 by (simp add: k)
    with Suc True show ?thesis
      unfolding py_range_def split by simp
  next
    case False
    then obtain k where k: "n = 2 * k + 1" by (auto elim: oddE)
    have e1: "(int (Suc n) - 0 + 2 - 1) div 2 - 1 = int k" unfolding k by simp
    have e0: "(int n - 0 + 2 - 1) div 2 - 1 = int k" unfolding k by simp
    have "py_range3 0 (int (Suc n)) 2 = py_range3 0 (int n) 2"
      unfolding py_range3_def e1 e0 ..
    with Suc False show ?thesis
      unfolding py_range_def split by simp
  qed
qed

lemma nth_product_rows:
  assumes "0 \<le> x" "x < w" "0 \<le> y" "y < h"
  shows "[[f x y. x \<leftarrow> py_range 0 w]. y \<leftarrow> py_range 0 h] ! nat y ! nat x = f x y"
proof -
  have len: "length [0..n - 1] = nat n" for n :: int by simp
  have nth: "[0..n - 1] ! nat i = i" if "0 \<le> i" "i < n" for i n :: int
    using that nth_upto[of 0 "nat i" "n - 1"] by simp
  show ?thesis
    using assms unfolding py_range_def by (simp add: len nth)
qed

lemma dims_product_rows:
  "dims [[f x y. x \<leftarrow> py_range 0 (int w)]. y \<leftarrow> py_range 0 (int h)] (int w) (int h)"
  by (simp add: dims_def py_range_def list_all_iff)

lemma foreground_mask_dims: "dims (foreground_mask img) (width img) (height img)"
  unfolding foreground_mask_def Let_def width_def height_def
  by (simp add: dims_product_rows)

lemma foreground_mask_alpha:
  assumes "has_alpha img" "inb (width img) (height img) c"
  shows "cell_val (foreground_mask img) c \<longleftrightarrow> 0 < alpha_of (im_px img c)"
  using assms nth_product_rows[of "fst c" "width img" "snd c" "height img"
      "\<lambda>x y. 0 < alpha_of (im_px img (x, y))"]
  by (simp add: foreground_mask_def cell_val_def inb_def)

lemma foreground_mask_colour:
  assumes "\<not> has_alpha img" "inb (width img) (height img) c"
  shows "cell_val (foreground_mask img) c \<longleftrightarrow> rgb_at img c \<noteq> most_common_rgb img"
  using assms nth_product_rows[of "fst c" "width img" "snd c" "height img"
      "\<lambda>x y. rgb_at img (x, y) \<noteq> most_common_rgb img"]
  by (simp add: foreground_mask_def cell_val_def inb_def)

text \<open>
  Claim C9. For an image without alpha channel, \<open>most_common_rgb\<close> counts every pixel
  when \<open>width * height \<le> 2000000\<close> and the pixels with even \<open>x\<close> and even \<open>y\<close> otherwise; when
  there is a sample, the colour it returns is a sampled colour of maximal count and,
  among the colours of that count, the one sampled first; and \<open>foreground_mask\<close> has the
  size of the image and marks a pixel iff its RGB value differs from that colour.
\<close>

theorem most_common_rgb_background:
  assumes "\<not> has_alpha img"
  shows "(width img * height img \<le> 2000000 \<longrightarrow>
            samples img = [rgb_at img (x, y). y \<leftarrow> py_range 0 (height img), x \<leftarrow> py_range 0 (width img)])
       \<and> (2000000 < width img * height img \<longrightarrow>
            samples img = [rgb_at img (x, y). y \<leftarrow> filter even (py_range 0 (height img)),
                                              x \<leftarrow> filter even (py_range 0 (width img))])
       \<and> (samples img \<noteq> [] \<longrightarrow>
            most_common_rgb img \<in> set (samples img)
            \<and> (\<forall>c. count_list (samples img) c \<le> count_list (samples img) (most_common_rgb img))
            \<and> (\<forall>c\<in>set (samples img).
                  count_list (samples img) c = count_list (samples img) (most_common_rgb img) \<longrightarrow>
                  first_pos (samples img) (most_common_rgb img) \<le> first_pos (samples img) c))
       \<and> length (foreground_mask img) = nat (height img)
       \<and> (\<forall>row\<in>set (foreground_mask img). length row = nat (width img))
       \<and> (\<forall>x y. 0 \<le> x \<and> x < width img \<and> 0 \<le> y \<and> y < height img \<longrightarrow>
            (foreground_mask img ! nat y ! nat x \<longleftrightarrow> rgb_at img (x, y) \<noteq> most_common_rgb img))"
proof (intro conjI impI allI ballI)
  assume "width img * height img \<le> 2000000"
  then show "samples img = [rgb_at img (x, y). y \<leftarrow> py_range 0 (height img), x \<leftarrow> py_range 0 (width img)]"
    by (simp add: samples_def sample_step_def py_range3_step1)
next
  assume "2000000 < width img * height img"
  then show "samples img = [rgb_at img (x, y). y \<leftarrow> filter even (py_range 0 (height img)),
                                              x \<leftarrow> filter even (py_range 0 (width img))]"
    by (simp add: samples_def sample_step_def py_range3_step2_nat width_def height_def)
next
  assume "samples img \<noteq> []"
  then show "most_common_rgb img \<in> set (samples img)" by (rule most_common_rgb_spec(1))
next
  fix c assume "samples img \<noteq> []"
  then show "count_list (samples img) c \<le> count_list (samples img) (most_common_rgb img)"
    by (rule most_common_rgb_spec(2))
next
  fix c
  assume "samples img \<noteq> []" "c \<in> set (samples img)"
    "count_list (samples img) c = count_list (samples img) (most_common_rgb img)"
  then show "first_pos (samples img) (most_common_rgb img) \<le> first_pos (samples img) c"
    by (rule most_common_rgb_spec(3))
next
  from foreground_mask_dims[of img]
  show "length (foreground_mask img) = nat (height img)" by (simp add: dims_def)
next
  fix row assume "row \<in> set (foreground_mask img)"
  with foreground_mask_dims[of img]
  show "length row = nat (width img)" by (simp add: dims_def list_all_iff)
next
  fix x y assume a: "0 \<le> x \<and> x < width img \<and> 0 \<le> y \<and> y < height img"
  with foreground_mask_colour[OF assms, of "(x, y)"]
  show "foreground_mask img ! nat y ! nat x \<longleftrightarrow> rgb_at img (x, y) \<noteq> most_common_rgb img"
    by (simp add: inb_def cell_val_def)
qed

theorem most_common_rgb_background_witness:
  "\<not> has_alpha tie_image
   \<and> samples tie_image = [(255, 0, 0), (0, 0, 255), (0, 0, 255), (255, 0, 0)]
   \<and> most_common_rgb tie_image = (255, 0, 0)
   \<and> first_pos (samples tie_image) (most_common_rgb tie_image) \<le> first_pos (samples tie_image) (0, 0, 255)
   \<and> foreground_mask tie_image = [[False, True], [True, False]]"
proof -
  have na: "\<not> has_alpha tie_image" by code_simp
  have s: "samples tie_image = [(255, 0, 0), (0, 0, 255), (0, 0, 255), (255, 0, 0)]" by code_simp
  have m: "most_common_rgb tie_image = (255, 0, 0)" by code_simp
  have f: "foreground_mask tie_image = [[False, True], [True, False]]" by code_simp
  have ne: "samples tie_image \<noteq> []" unfolding s by simp
  have tie: "count_list (samples tie_image) (0, 0, 255)
               = count_list (samples tie_image) (most_common_rgb tie_image)"
    unfolding s m by simp
  have mem: "(0, 0, 255) \<in> set (samples tie_image)" unfolding s by simp
  from most_common_rgb_background[OF na] ne have
    "\<forall>c\<in>set (samples tie_image).
        count_list (samples tie_image) c = count_list (samples tie_image) (most_common_rgb tie_image) \<longrightarrow>
        first_pos (samples tie_image) (most_common_rgb tie_image) \<le> first_pos (samples tie_image) c"
    by blast
  with mem tie have "first_pos (samples tie_image) (most_common_rgb tie_image)
      \<le> first_pos (samples tie_image) (0, 0, 255)" by blast
  with na s m f show ?thesis by blast
qed

end
